theory Spec2Isabelle
  imports Complex_Main "HOL-Library.Word" "HOL-Library.Code_Target_Nat"
begin

section \<open>The scripting runtime's values\<close>

text \<open>
  The values of the Lua runtime that \<open>LuaSerializer.cpp\<close> walks. A table is kept as the
  list of its entries in the order in which their keys were entered; the order in which
  \<open>lua_next\<close> visits them belongs to the runtime and is a parameter (\<open>slot\<close>, below).
  A userdata is the id of its Lua object, which is its identity; a table is kept by its
  content and has no identity of its own. A number is a C \<open>double\<close> in the source; the
  model keeps the exact decimal value and does not round to binary64, so nothing below
  speaks of rounding, infinities or NaN.
\<close>

type_synonym lid = nat

datatype lval =
    LNil
  | LBoolean bool
  | LLightUserdata nat
  | LNumber rat
  | LString string
  | LTable "(lval \<times> lval) list"
  | LFunction nat
  | LUserdata lid
  | LThread nat

datatype lua_type =
    LUA_TNIL | LUA_TBOOLEAN | LUA_TLIGHTUSERDATA | LUA_TNUMBER | LUA_TSTRING
  | LUA_TTABLE | LUA_TFUNCTION | LUA_TUSERDATA | LUA_TTHREAD | LUA_TNONE

fun type_of_lval :: "lval \<Rightarrow> lua_type" where
  "type_of_lval LNil = LUA_TNIL"
| "type_of_lval (LBoolean b) = LUA_TBOOLEAN"
| "type_of_lval (LLightUserdata p) = LUA_TLIGHTUSERDATA"
| "type_of_lval (LNumber x) = LUA_TNUMBER"
| "type_of_lval (LString s) = LUA_TSTRING"
| "type_of_lval (LTable t) = LUA_TTABLE"
| "type_of_lval (LFunction f) = LUA_TFUNCTION"
| "type_of_lval (LUserdata i) = LUA_TUSERDATA"
| "type_of_lval (LThread c) = LUA_TTHREAD"

fun lua_typename :: "lua_type \<Rightarrow> string" where
  "lua_typename LUA_TNIL = ''nil''"
| "lua_typename LUA_TBOOLEAN = ''boolean''"
| "lua_typename LUA_TLIGHTUSERDATA = ''userdata''"
| "lua_typename LUA_TNUMBER = ''number''"
| "lua_typename LUA_TSTRING = ''string''"
| "lua_typename LUA_TTABLE = ''table''"
| "lua_typename LUA_TFUNCTION = ''function''"
| "lua_typename LUA_TUSERDATA = ''userdata''"
| "lua_typename LUA_TTHREAD = ''thread''"
| "lua_typename LUA_TNONE = ''no value''"

text \<open>
  The state of the runtime: the value stack, top first, and the registry. Index \<open>-1\<close> is
  the top of the stack, index \<open>1\<close> its bottom.
\<close>

record lua_State =
  stack :: "lval list"
  registry :: "(string \<times> lval) list"

definition index2adr :: "lua_State \<Rightarrow> int \<Rightarrow> nat option" where
  "index2adr l idx =
     (let n = int (length (stack l)) in
      if 0 < idx \<and> idx \<le> n then Some (nat (n - idx))
      else if idx < 0 \<and> - idx \<le> n then Some (nat (- idx - 1))
      else None)"

definition lua_value :: "lua_State \<Rightarrow> int \<Rightarrow> lval option" where
  "lua_value l idx = map_option (\<lambda>i. stack l ! i) (index2adr l idx)"

definition lua_type :: "lua_State \<Rightarrow> int \<Rightarrow> lua_type" where
  "lua_type l idx = (case lua_value l idx of None \<Rightarrow> LUA_TNONE | Some v \<Rightarrow> type_of_lval v)"

definition lua_gettop :: "lua_State \<Rightarrow> int" where
  "lua_gettop l = int (length (stack l))"

definition push :: "lval \<Rightarrow> lua_State \<Rightarrow> lua_State" where
  "push v l = l\<lparr>stack := v # stack l\<rparr>"

definition lua_pushnil :: "lua_State \<Rightarrow> lua_State" where
  "lua_pushnil l = push LNil l"

definition lua_pushnumber :: "lua_State \<Rightarrow> rat \<Rightarrow> lua_State" where
  "lua_pushnumber l x = push (LNumber x) l"

definition lua_pushinteger :: "lua_State \<Rightarrow> int \<Rightarrow> lua_State" where
  "lua_pushinteger l n = push (LNumber (of_int n)) l"

definition lua_pushboolean :: "lua_State \<Rightarrow> bool \<Rightarrow> lua_State" where
  "lua_pushboolean l b = push (LBoolean b) l"

definition lua_pushlstring :: "lua_State \<Rightarrow> string \<Rightarrow> lua_State" where
  "lua_pushlstring l s = push (LString s) l"

definition lua_newtable :: "lua_State \<Rightarrow> lua_State" where
  "lua_newtable l = push (LTable []) l"

definition lua_pop :: "lua_State \<Rightarrow> nat \<Rightarrow> lua_State" where
  "lua_pop l n = l\<lparr>stack := drop n (stack l)\<rparr>"

text \<open>
  Whether the key \<open>a\<close> that a table holds is the key \<open>b\<close> of a store or a fetch. The
  runtime compares numbers, booleans and strings by value and userdata by identity. It
  compares tables by identity too: a table that the source uses as a key is one the
  decoder has just built, or one that \<open>Serialize\<close> takes from the callbacks table and
  stores into a new table, so the table stored into never holds it, and a table is never
  the same key as one held.
\<close>

definition same_key :: "lval \<Rightarrow> lval \<Rightarrow> bool" where
  "same_key a b = (case b of LTable t \<Rightarrow> False | _ \<Rightarrow> a = b)"

text \<open>
  \<open>t[k] = v\<close> without metamethods: a nil value removes the key, a key that the table
  holds keeps its place in the list, and a new key is the last one entered.
\<close>

fun update_entry :: "lval \<Rightarrow> lval \<Rightarrow> (lval \<times> lval) list \<Rightarrow> (lval \<times> lval) list" where
  "update_entry k v [] = [(k, v)]"
| "update_entry k v (p # ps) =
     (if same_key (fst p) k then (k, v) # ps else p # update_entry k v ps)"

definition table_set :: "(lval \<times> lval) list \<Rightarrow> lval \<Rightarrow> lval \<Rightarrow> (lval \<times> lval) list" where
  "table_set t k v =
     (if v = LNil then filter (\<lambda>p. \<not> same_key (fst p) k) t else update_entry k v t)"

definition table_get :: "(lval \<times> lval) list \<Rightarrow> lval \<Rightarrow> lval" where
  "table_get t k = (case find (\<lambda>p. same_key (fst p) k) t of None \<Rightarrow> LNil | Some p \<Rightarrow> snd p)"

section \<open>The C library\<close>

abbreviation NUL :: char where "NUL \<equiv> CHR 0x00"
abbreviation NL :: char where "NL \<equiv> CHR 0x0A"

text \<open>What a \<open>const char *\<close> reader sees of a byte sequence: the bytes before the first NUL.\<close>

definition c_str :: "string \<Rightarrow> string" where
  "c_str s = takeWhile (\<lambda>c. c \<noteq> NUL) s"

definition strlen :: "string \<Rightarrow> nat" where
  "strlen s = length (c_str s)"

definition isspace :: "char \<Rightarrow> bool" where
  "isspace c = (c = CHR '' '' \<or> c = CHR 0x09 \<or> c = CHR 0x0A \<or> c = CHR 0x0B
                \<or> c = CHR 0x0C \<or> c = CHR 0x0D)"

definition digit_val :: "char \<Rightarrow> nat option" where
  "digit_val c =
     (let n = (of_char c :: nat) in
      if 48 \<le> n \<and> n \<le> 57 then Some (n - 48)
      else if 97 \<le> n \<and> n \<le> 122 then Some (n - 87)
      else if 65 \<le> n \<and> n \<le> 90 then Some (n - 55)
      else None)"

definition is_digit :: "nat \<Rightarrow> char \<Rightarrow> bool" where
  "is_digit base c = (case digit_val c of None \<Rightarrow> False | Some d \<Rightarrow> d < base)"

definition digits_value :: "nat \<Rightarrow> string \<Rightarrow> nat" where
  "digits_value base ds = foldl (\<lambda>acc c. acc * base + the (digit_val c)) 0 ds"

text \<open>
  \<open>strtol(s, &end, 0)\<close> on the C string \<open>s\<close>: white space, an optional sign, the base
  from the prefix (\<open>0x\<close> before a hexadecimal digit, a leading \<open>0\<close>, or decimal), the
  longest run of digits, the value clamped to the range of a 64-bit \<open>long\<close>. The result
  is the value with the number of bytes consumed (\<open>end - s\<close>), or \<open>None\<close> when there is
  no conversion (\<open>end == s\<close>).
\<close>

definition LONG_MAX :: int where "LONG_MAX = 2 ^ 63 - 1"
definition LONG_MIN :: int where "LONG_MIN = - (2 ^ 63)"

definition strtol :: "string \<Rightarrow> (int \<times> nat) option" where
  "strtol s =
     (let ws = takeWhile isspace s;
          s1 = dropWhile isspace s;
          neg = (s1 \<noteq> [] \<and> hd s1 = CHR ''-'');
          sg = (if s1 \<noteq> [] \<and> (hd s1 = CHR ''-'' \<or> hd s1 = CHR ''+'') then 1 else 0);
          s2 = drop sg s1;
          hex = (2 < length s2 \<and> s2 ! 0 = CHR ''0'' \<and> (s2 ! 1 = CHR ''x'' \<or> s2 ! 1 = CHR ''X'')
                 \<and> is_digit 16 (s2 ! 2));
          base = (if hex then 16 else if s2 \<noteq> [] \<and> hd s2 = CHR ''0'' then 8 else 10);
          px = (if hex then 2 else 0);
          ds = takeWhile (is_digit base) (drop px s2);
          v = int (digits_value base ds)
      in if ds = [] then None
         else Some (if neg then max LONG_MIN (- v) else min LONG_MAX v,
                    length ws + sg + px + length ds))"

text \<open>The conversion of a \<open>long\<close> to a 32-bit \<open>int\<close>.\<close>

definition long_to_int :: "int \<Rightarrow> int" where
  "long_to_int v = sint (word_of_int v :: 32 word)"

text \<open>
  \<open>strtod(s, &end)\<close> on the C string \<open>s\<close>, for decimal text: white space, an optional
  sign, digits with an optional fraction, and an exponent when digits follow the \<open>e\<close>.
  The hexadecimal, \<open>inf\<close> and \<open>nan\<close> forms that the library also accepts are left out
  of the model: for a text that starts like one of them the result is \<open>NotModelled\<close>.
\<close>

datatype strtod_result = NoConversion | Converted rat nat | NotModelled

definition lower :: "char \<Rightarrow> char" where
  "lower c = (let n = (of_char c :: nat) in if 65 \<le> n \<and> n \<le> 90 then char_of (n + 32) else c)"

definition special_form :: "string \<Rightarrow> bool" where
  "special_form s =
     (let p3 = map lower (take 3 s); p2 = map lower (take 2 s)
      in p3 = ''inf'' \<or> p3 = ''nan'' \<or> p2 = ''0x'')"

definition scan_sign :: "string \<Rightarrow> bool \<times> nat" where
  "scan_sign s =
     (if s \<noteq> [] \<and> hd s = CHR ''-'' then (True, 1)
      else if s \<noteq> [] \<and> hd s = CHR ''+'' then (False, 1)
      else (False, 0))"

text \<open>The exponent part, with the number of bytes it takes; it is read only when digits follow.\<close>

definition scan_exponent :: "string \<Rightarrow> int \<times> nat" where
  "scan_exponent s =
     (let e1 = (s \<noteq> [] \<and> (hd s = CHR ''e'' \<or> hd s = CHR ''E''));
          (eneg, esg) = scan_sign (drop 1 s);
          ed = takeWhile (is_digit 10) (drop (1 + esg) s)
      in if e1 \<and> ed \<noteq> []
         then (if eneg then - int (digits_value 10 ed) else int (digits_value 10 ed),
               1 + esg + length ed)
         else (0, 0))"

definition strtod :: "string \<Rightarrow> strtod_result" where
  "strtod s =
     (let ws = takeWhile isspace s;
          s1 = dropWhile isspace s;
          (neg, sg) = scan_sign s1;
          s2 = drop sg s1;
          ip = takeWhile (is_digit 10) s2;
          s3 = drop (length ip) s2;
          dot = (if s3 \<noteq> [] \<and> hd s3 = CHR ''.'' then 1 else 0);
          fp = takeWhile (is_digit 10) (drop dot s3);
          (ex, elen) = scan_exponent (drop (dot + length fp) s3);
          m = (of_nat (digits_value 10 (ip @ fp)) :: rat);
          sc = ex - int (length fp);
          v = (if 0 \<le> sc then m * 10 ^ nat sc else m / 10 ^ nat (- sc))
      in if special_form s2 then NotModelled
         else if ip @ fp = [] then NoConversion
         else Converted (if neg then - v else v)
                (length ws + sg + length ip + dot + length fp + elen))"

text \<open>The conversion of a \<open>double\<close> to \<open>int\<close> drops the fraction.\<close>

definition double_to_int :: "rat \<Rightarrow> int" where
  "double_to_int x = (if 0 \<le> x then \<lfloor>x\<rfloor> else \<lceil>x\<rceil>)"

section \<open>Host objects and the identity table\<close>

text \<open>
  What the serializer asks of the rest of the program, taken as parameters: the table of
  Lua objects (\<open>LuaObjectBase::Lookup\<close>, with the class test \<open>Isa\<close> and the wrapped
  object), the two directions of \<open>Serializer::LookupBody\<close>, \<open>Body::GetType\<close>, and the
  functions that push the userdata of a host object: \<open>PushToLua\<close> of the class named,
  and \<open>LuaSBodyPath::PushToLuaGC\<close>. A \<open>Body *\<close> is an address; the null pointer is
  \<open>None\<close>. The Lua runtime gives three more: the text \<open>lua_tostring\<close> makes of a
  number, the result of calling a Lua function, and \<open>slot\<close>, the position at which a
  table that holds the given entries keeps the node of a key. \<open>lua_next\<close> visits the
  nodes by position, so the order of a traversal is the runtime's choice and not the
  order in which the keys were entered.
\<close>

type_synonym body = nat

record SBodyPath =
  sectorX :: int
  sectorY :: int
  systemNum :: int
  sbodyId :: int

datatype object_type =
  BODY | SHIP | SPACESTATION | PLANET | STAR | PLAYER | OTHER_OBJECT nat

datatype LuaObjectBase =
    IsaSBodyPath SBodyPath
  | IsaBody body
  | IsaOther string

record env =
  Lookup :: "lid \<Rightarrow> LuaObjectBase option"
  LookupBodyIndex :: "body \<Rightarrow> int"
  LookupBody :: "int \<Rightarrow> body option"
  GetType :: "body \<Rightarrow> object_type"
  PushToLua :: "string \<Rightarrow> body \<Rightarrow> lid"
  PushToLuaGC :: "SBodyPath \<Rightarrow> lid"
  lua_number2str :: "rat \<Rightarrow> string"
  call :: "nat \<Rightarrow> lval list \<Rightarrow> lval"
  slot :: "(lval \<times> lval) list \<Rightarrow> lval \<Rightarrow> nat"

text \<open>The entries of a table in the order in which \<open>lua_next\<close> visits them.\<close>

definition lua_next_order :: "env \<Rightarrow> (lval \<times> lval) list \<Rightarrow> (lval \<times> lval) list" where
  "lua_next_order e t = sort_key (\<lambda>p. slot e t (fst p)) t"

section \<open>Outcomes\<close>

text \<open>
  A function of the source either returns, with the runtime state it leaves and its
  result, or is left by a throw or a fatal stop, with the runtime state at that moment.
  \<open>SavedGameCorruptException\<close> is the exception of the decoder and \<open>FatalError\<close> the
  stop of the encoder, with the message in its parts (the key is \<open>None\<close> for a null
  \<open>const char *\<close>). The others are the ways out that C++ or the Lua API leave
  undefined or hand to the runtime: a read past the terminating NUL of the buffer, a call
  through a null \<open>Body *\<close>, a Lua API call on a stack that does not have the shape it
  needs, an error raised by the Lua runtime, and a library call outside the model.
\<close>

datatype ('e, 'a) outcome = Returned lua_State 'a | Raised 'e lua_State

datatype fatal_message =
    NoLongerExists "string option" lid
  | UnsupportedUserdata "string option"
  | UnsupportedValue "string option" string

datatype error =
    SavedGameCorruptException
  | FatalError fatal_message
  | BufferOverrun
  | NullPointerDereference
  | LuaApiMisuse
  | LuaRuntimeError
  | LibraryNotModelled

section \<open>unpickle\<close>

text \<open>
  The buffer is \<open>pickled.c_str()\<close>: the bytes of the string and one NUL after them. A
  cursor is an offset into it; offset \<open>length buf\<close> reads the NUL, a greater one is
  outside the buffer.
\<close>

definition peek :: "string \<Rightarrow> nat \<Rightarrow> char option" where
  "peek buf pos =
     (if pos < length buf then Some (buf ! pos)
      else if pos = length buf then Some NUL
      else None)"

definition c_str_at :: "string \<Rightarrow> nat \<Rightarrow> string option" where
  "c_str_at buf pos = (if pos \<le> length buf then Some (c_str (drop pos buf)) else None)"

text \<open>\<open>strchr(pos, c) - pos\<close> on a C string.\<close>

fun strchr :: "string \<Rightarrow> char \<Rightarrow> nat option" where
  "strchr [] c = None"
| "strchr (x # xs) c = (if x = c then Some 0 else map_option Suc (strchr xs c))"

text \<open>
  \<open>int v = strtol(pos, &end, 0); if (pos == end) throw ...; pos = end+1;\<close>
  gives the value and the new cursor.
\<close>

definition read_int :: "string \<Rightarrow> nat \<Rightarrow> error + (int \<times> nat)" where
  "read_int buf pos =
     (case c_str_at buf pos of
        None \<Rightarrow> Inl BufferOverrun
      | Some s \<Rightarrow>
          (case strtol s of
             None \<Rightarrow> Inl SavedGameCorruptException
           | Some (v, k) \<Rightarrow> Inr (long_to_int v, pos + k + 1)))"

text \<open>\<open>lua_rawset(l, -3)\<close>: the value on top, the key under it, the table under both.\<close>

definition lua_rawset_3 :: "lua_State \<Rightarrow> lua_State option" where
  "lua_rawset_3 l =
     (case stack l of
        v # k # LTable t # rest \<Rightarrow>
          (if k = LNil then None else Some (l\<lparr>stack := LTable (table_set t k v) # rest\<rparr>))
      | _ \<Rightarrow> None)"

definition push_body :: "env \<Rightarrow> lua_State \<Rightarrow> body \<Rightarrow> (error, unit) outcome" where
  "push_body e l b =
     (case GetType e b of
        BODY \<Rightarrow> Returned (push (LUserdata (PushToLua e ''Body'' b)) l) ()
      | SHIP \<Rightarrow> Returned (push (LUserdata (PushToLua e ''Ship'' b)) l) ()
      | SPACESTATION \<Rightarrow> Returned (push (LUserdata (PushToLua e ''SpaceStation'' b)) l) ()
      | PLANET \<Rightarrow> Returned (push (LUserdata (PushToLua e ''Planet'' b)) l) ()
      | STAR \<Rightarrow> Returned (push (LUserdata (PushToLua e ''Star'' b)) l) ()
      | PLAYER \<Rightarrow> Returned (push (LUserdata (PushToLua e ''Player'' b)) l) ()
      | OTHER_OBJECT n \<Rightarrow> Raised SavedGameCorruptException l)"

definition unpickle_sbodypath ::
  "env \<Rightarrow> string \<Rightarrow> lua_State \<Rightarrow> nat \<Rightarrow> (error, nat) outcome" where
  "unpickle_sbodypath e buf l pos =
     (case read_int buf pos of Inl err \<Rightarrow> Raised err l | Inr (x, pos1) \<Rightarrow>
      case read_int buf pos1 of Inl err \<Rightarrow> Raised err l | Inr (y, pos2) \<Rightarrow>
      case read_int buf pos2 of Inl err \<Rightarrow> Raised err l | Inr (s, pos3) \<Rightarrow>
      case read_int buf pos3 of Inl err \<Rightarrow> Raised err l | Inr (b, pos4) \<Rightarrow>
        Returned (push (LUserdata (PushToLuaGC e
                    \<lparr>sectorX = x, sectorY = y, systemNum = s, sbodyId = b\<rparr>)) l) pos4)"

text \<open>
  The Body branch. The test after the lookup compares the cursor, already moved one past
  \<open>end\<close>, with \<open>end\<close>; the pointer the lookup returned is used without a test.
\<close>

definition unpickle_body ::
  "env \<Rightarrow> string \<Rightarrow> lua_State \<Rightarrow> nat \<Rightarrow> (error, nat) outcome" where
  "unpickle_body e buf l pos =
     (case c_str_at buf pos of
        None \<Rightarrow> Raised BufferOverrun l
      | Some s \<Rightarrow>
          (case strtol s of
             None \<Rightarrow> Raised SavedGameCorruptException l
           | Some (v, k) \<Rightarrow>
               (let n = long_to_int v; end = pos + k; pos1 = end + 1 in
                if pos1 = end then Raised SavedGameCorruptException l
                else case LookupBody e n of
                       None \<Rightarrow> Raised NullPointerDereference l
                     | Some b \<Rightarrow>
                         (case push_body e l b of
                            Raised err l' \<Rightarrow> Raised err l'
                          | Returned l' u \<Rightarrow> Returned l' pos1))))"

definition unpickle_userdata ::
  "env \<Rightarrow> string \<Rightarrow> lua_State \<Rightarrow> nat \<Rightarrow> (error, nat) outcome" where
  "unpickle_userdata e buf l pos =
     (case c_str_at buf pos of
        None \<Rightarrow> Raised BufferOverrun l
      | Some s \<Rightarrow>
          (case strchr s NL of
             None \<Rightarrow> Raised SavedGameCorruptException l
           | Some len \<Rightarrow>
               (let end = pos + len + 1 in
                if len = 9 \<and> take 9 s = ''SBodyPath'' then unpickle_sbodypath e buf l end
                else if len = 4 \<and> take 4 s = ''Body'' then unpickle_body e buf l end
                else Raised SavedGameCorruptException l)))"

definition unpickle_number ::
  "string \<Rightarrow> lua_State \<Rightarrow> nat \<Rightarrow> (error, nat) outcome" where
  "unpickle_number buf l pos =
     (case c_str_at buf pos of
        None \<Rightarrow> Raised BufferOverrun l
      | Some s \<Rightarrow>
          (case strtod s of
             NoConversion \<Rightarrow> Raised SavedGameCorruptException l
           | NotModelled \<Rightarrow> Raised LibraryNotModelled l
           | Converted f k \<Rightarrow> Returned (lua_pushnumber l f) (pos + k + 1)))"

definition unpickle_boolean ::
  "string \<Rightarrow> lua_State \<Rightarrow> nat \<Rightarrow> (error, nat) outcome" where
  "unpickle_boolean buf l pos =
     (case peek buf pos of
        None \<Rightarrow> Raised BufferOverrun l
      | Some c \<Rightarrow>
          (if c \<noteq> CHR ''0'' \<and> c \<noteq> CHR ''1'' then Raised SavedGameCorruptException l
           else Returned (lua_pushboolean l (if c = CHR ''0'' then False else True)) (pos + 1)))"

text \<open>
  The string branch copies \<open>len\<close> bytes from behind the length field and moves the
  cursor by \<open>len\<close>, with no comparison against the end of the buffer. A negative
  \<open>len\<close> becomes a huge \<open>size_t\<close>.
\<close>

definition unpickle_string ::
  "string \<Rightarrow> lua_State \<Rightarrow> nat \<Rightarrow> (error, nat) outcome" where
  "unpickle_string buf l pos =
     (case c_str_at buf pos of
        None \<Rightarrow> Raised BufferOverrun l
      | Some s \<Rightarrow>
          (case strtod s of
             NoConversion \<Rightarrow> Raised SavedGameCorruptException l
           | NotModelled \<Rightarrow> Raised LibraryNotModelled l
           | Converted f k \<Rightarrow>
               (let len = double_to_int f; end = pos + k + 1 in
                if len < 0 \<or> length buf + 1 < end + nat len then Raised BufferOverrun l
                else Returned (lua_pushlstring l (take (nat len) (drop end (buf @ [NUL]))))
                       (end + nat len))))"

text \<open>
  \<open>unpickle\<close> and the loop of its table branch, with a bound on the depth of calls;
  \<open>None\<close> is the bound reached.
\<close>

fun unpickle_n ::
  "nat \<Rightarrow> env \<Rightarrow> string \<Rightarrow> lua_State \<Rightarrow> nat \<Rightarrow> (error, nat) outcome option"
and table_loop_n ::
  "nat \<Rightarrow> env \<Rightarrow> string \<Rightarrow> lua_State \<Rightarrow> nat \<Rightarrow> (error, nat) outcome option"
where
  "unpickle_n 0 e buf l pos = None"
| "unpickle_n (Suc n) e buf l pos =
     (case peek buf pos of
        None \<Rightarrow> Some (Raised BufferOverrun l)
      | Some type \<Rightarrow>
          (let pos = pos + 1 in
           if type = CHR ''f'' then Some (unpickle_number buf l pos)
           else if type = CHR ''b'' then Some (unpickle_boolean buf l pos)
           else if type = CHR ''s'' then Some (unpickle_string buf l pos)
           else if type = CHR ''t'' then table_loop_n n e buf (lua_newtable l) pos
           else if type = CHR ''u'' then Some (unpickle_userdata e buf l pos)
           else Some (Raised SavedGameCorruptException l)))"
| "table_loop_n 0 e buf l pos = None"
| "table_loop_n (Suc n) e buf l pos =
     (case peek buf pos of
        None \<Rightarrow> Some (Raised BufferOverrun l)
      | Some c \<Rightarrow>
          (if c \<noteq> CHR ''n'' then
             (case unpickle_n n e buf l pos of
                None \<Rightarrow> None
              | Some (Raised err l') \<Rightarrow> Some (Raised err l')
              | Some (Returned l1 pos1) \<Rightarrow>
                  (case unpickle_n n e buf l1 pos1 of
                     None \<Rightarrow> None
                   | Some (Raised err l') \<Rightarrow> Some (Raised err l')
                   | Some (Returned l2 pos2) \<Rightarrow>
                       (case lua_rawset_3 l2 of
                          None \<Rightarrow> Some (Raised LuaApiMisuse l2)
                        | Some l3 \<Rightarrow> table_loop_n n e buf l3 pos2)))
           else Some (Returned l (pos + 1))))"

text \<open>
  Every call that returns has moved the cursor, and a table takes two nested calls for one
  byte, so a depth of twice the buffer's length plus two is never reached.
\<close>

definition unpickle ::
  "env \<Rightarrow> string \<Rightarrow> lua_State \<Rightarrow> nat \<Rightarrow> (error, nat) outcome option" where
  "unpickle e buf l pos = unpickle_n (2 * length buf + 2) e buf l pos"

section \<open>pickle\<close>

text \<open>The texts of \<open>%d\<close> and \<open>%f\<close>, and \<open>snprintf\<close> into the 256-byte buffer.\<close>

definition digit_char :: "nat \<Rightarrow> char" where
  "digit_char d = char_of (48 + d)"

fun show_nat :: "nat \<Rightarrow> string" where
  "show_nat n = (if n < 10 then [digit_char n] else show_nat (n div 10) @ [digit_char (n mod 10)])"

declare show_nat.simps [simp del]

definition show_int :: "int \<Rightarrow> string" where
  "show_int i = (if i < 0 then CHR ''-'' # show_nat (nat (- i)) else show_nat (nat i))"

definition round_half_even :: "rat \<Rightarrow> nat" where
  "round_half_even q =
     (let f = nat \<lfloor>q\<rfloor>; d = q - of_nat f in
      if d < 1 / 2 then f else if 1 / 2 < d then f + 1 else if even f then f else f + 1)"

definition show_f :: "rat \<Rightarrow> string" where
  "show_f x =
     (let r = round_half_even (\<bar>x\<bar> * 1000000);
          fr = show_nat (r mod 1000000)
      in (if x < 0 then [CHR ''-''] else []) @ show_nat (r div 1000000) @ [CHR ''.'']
         @ replicate (6 - length fr) (CHR ''0'') @ fr)"

definition snprintf_256 :: "string \<Rightarrow> string" where
  "snprintf_256 s = take 255 s"

text \<open>
  Modelled from the spec: \<open>Error\<close>, the program's fatal report, is defined outside this
  file. It is the process-terminating diagnostic of the spec: it reports its message and
  nothing after the call runs.
\<close>

definition Error :: "fatal_message \<Rightarrow> lua_State \<Rightarrow> (error, 'a) outcome" where
  "Error msg l = Raised (FatalError msg) l"

text \<open>\<open>lua_tostring\<close> as the encoder uses it: the C string of a string or number, null otherwise.\<close>

definition lua_tostring :: "env \<Rightarrow> lval \<Rightarrow> string option" where
  "lua_tostring e v =
     (case v of
        LString s \<Rightarrow> Some (c_str s)
      | LNumber x \<Rightarrow> Some (lua_number2str e x)
      | _ \<Rightarrow> None)"

text \<open>A number on the stack is turned into a string by \<open>lua_tostring\<close>.\<close>

definition tostring_slot :: "env \<Rightarrow> lval \<Rightarrow> lval" where
  "tostring_slot e v = (case v of LNumber x \<Rightarrow> LString (lua_number2str e x) | _ \<Rightarrow> v)"

definition pickle_userdata ::
  "env \<Rightarrow> lua_State \<Rightarrow> lid \<Rightarrow> string \<Rightarrow> string option \<Rightarrow> (error, string) outcome" where
  "pickle_userdata e l i out key =
     (let out = out @ ''u'' in
      case Lookup e i of
        None \<Rightarrow> Error (NoLongerExists key i) l
      | Some (IsaSBodyPath sbp) \<Rightarrow>
          Returned l (out @ snprintf_256 (''SBodyPath'' @ [NL]
             @ show_int (sectorX sbp) @ [NL] @ show_int (sectorY sbp) @ [NL]
             @ show_int (systemNum sbp) @ [NL] @ show_int (sbodyId sbp) @ [NL]))
      | Some (IsaBody b) \<Rightarrow>
          Returned l (out @ snprintf_256 (''Body'' @ [NL] @ show_int (LookupBodyIndex e b) @ [NL]))
      | Some (IsaOther c) \<Rightarrow> Error (UnsupportedUserdata key) l)"

text \<open>
  \<open>pickle\<close>, by the value at the index it is called with. \<open>pickle_entries\<close> is the
  \<open>while (lua_next(l, -2))\<close> loop over the entries still to visit, in the order of
  \<open>lua_next\<close>, entered with the previous key on top of the table's copy; a nested call
  is given the value that its index names. The length of a string is printed as it is; a length that does not fit an
  \<open>int\<close> is outside the model. \<open>LUA_DEBUG_START\<close> and \<open>LUA_DEBUG_END\<close>, the
  assertions on the stack depth at the entry and the return of each function, change
  nothing and are left out.
\<close>

function (sequential) pickle_val ::
  "env \<Rightarrow> lua_State \<Rightarrow> lval \<Rightarrow> string \<Rightarrow> string option \<Rightarrow> (error, string) outcome"
and pickle_entries ::
  "env \<Rightarrow> lua_State \<Rightarrow> (lval \<times> lval) list \<Rightarrow> string \<Rightarrow> string option \<Rightarrow> (error, string) outcome"
where
  "pickle_val e l LNil out key = Returned l out"
| "pickle_val e l (LNumber x) out key =
     Returned l (out @ snprintf_256 (''f'' @ show_f x @ [NL]))"
| "pickle_val e l (LBoolean b) out key =
     Returned l (out @ snprintf_256 (''b'' @ show_int (if b then 1 else 0)))"
| "pickle_val e l (LString s) out key =
     (let l1 = push (LString s) l;
          str = c_str s;
          out = out @ snprintf_256 (''s'' @ show_int (int (strlen str)) @ [NL]);
          out = out @ str
      in Returned (lua_pop l1 1) out)"
| "pickle_val e l (LTable t) out key =
     (let out = out @ ''t'';
          l1 = push (LTable t) l;
          l2 = lua_pushnil l1
      in case pickle_entries e l2 (lua_next_order e t) out key of
           Raised err l' \<Rightarrow> Raised err l'
         | Returned l3 out \<Rightarrow> Returned (lua_pop l3 1) (out @ ''n''))"
| "pickle_val e l (LUserdata i) out key = pickle_userdata e l i out key"
| "pickle_val e l (LLightUserdata p) out key =
     Error (UnsupportedValue key (lua_typename LUA_TLIGHTUSERDATA)) l"
| "pickle_val e l (LFunction f) out key =
     Error (UnsupportedValue key (lua_typename LUA_TFUNCTION)) l"
| "pickle_val e l (LThread c) out key =
     Error (UnsupportedValue key (lua_typename LUA_TTHREAD)) l"
| "pickle_entries e l [] out key = Returned (lua_pop l 1) out"
| "pickle_entries e l ((k, v) # es) out key =
     (let l1 = push v (push k (lua_pop l 1)) in
      if key \<noteq> None then
        (case pickle_val e l1 k out key of
           Raised err l' \<Rightarrow> Raised err l'
         | Returned l2 out \<Rightarrow>
             (case pickle_val e l2 v out key of
                Raised err l' \<Rightarrow> Raised err l'
              | Returned l3 out \<Rightarrow> pickle_entries e (lua_pop l3 1) es out key))
      else
        (let l2 = push (tostring_slot e k) l1;
             k' = lua_tostring e k
         in case pickle_val e l2 k out k' of
              Raised err l' \<Rightarrow> Raised err l'
            | Returned l3 out \<Rightarrow>
                (case pickle_val e l3 v out k' of
                   Raised err l' \<Rightarrow> Raised err l'
                 | Returned l4 out \<Rightarrow> pickle_entries e (lua_pop (lua_pop l4 1) 1) es out key)))"
  by pat_completeness auto
termination
proof -
  have ins: "size_list f (insort_key g x xs) = size_list f (x # xs)"
    for f :: "lval \<times> lval \<Rightarrow> nat" and g :: "lval \<times> lval \<Rightarrow> nat" and x xs
    by (induction xs) auto
  have srt: "size_list f (sort_key g xs) = size_list f xs"
    for f :: "lval \<times> lval \<Rightarrow> nat" and g :: "lval \<times> lval \<Rightarrow> nat" and xs
    by (induction xs) (auto simp: ins)
  show ?thesis
    by (relation "measure (\<lambda>x. case x of
           Inl (e, l, v, out, key) \<Rightarrow> size v
         | Inr (e, l, es, out, key) \<Rightarrow> size_list (size_prod size size) es)")
       (auto simp: lua_next_order_def srt)
qed

definition pickle ::
  "env \<Rightarrow> lua_State \<Rightarrow> int \<Rightarrow> string \<Rightarrow> string option \<Rightarrow> (error, string) outcome" where
  "pickle e l idx out key =
     (case lua_value l idx of
        None \<Rightarrow> Error (UnsupportedValue key (lua_typename LUA_TNONE)) l
      | Some v \<Rightarrow> pickle_val e l v out key)"

section \<open>Serialize and Unserialize\<close>

text \<open>
  The Lua API calls the two functions make, on the stack of the model. A call that the
  stack cannot serve gives \<open>None\<close>. A Lua function is called through the parameter
  \<open>call\<close>, as a function of its arguments.
\<close>

definition lua_pushvalue :: "lua_State \<Rightarrow> int \<Rightarrow> lua_State option" where
  "lua_pushvalue l idx = map_option (\<lambda>v. push v l) (lua_value l idx)"

definition lua_insert_2 :: "lua_State \<Rightarrow> lua_State option" where
  "lua_insert_2 l = (case stack l of a # b # rest \<Rightarrow> Some (l\<lparr>stack := b # a # rest\<rparr>) | _ \<Rightarrow> None)"

definition lua_gettable :: "lua_State \<Rightarrow> int \<Rightarrow> lua_State option" where
  "lua_gettable l idx =
     (case (stack l, lua_value l idx) of
        (k # rest, Some (LTable t)) \<Rightarrow> Some (l\<lparr>stack := table_get t k # rest\<rparr>)
      | _ \<Rightarrow> None)"

definition lua_settable :: "lua_State \<Rightarrow> int \<Rightarrow> lua_State option" where
  "lua_settable l idx =
     (case (stack l, index2adr l idx, lua_value l idx) of
        (v # k # rest, Some i, Some (LTable t)) \<Rightarrow>
          (if k = LNil \<or> i < 2 then None
           else Some (l\<lparr>stack := rest[i - 2 := LTable (table_set t k v)]\<rparr>))
      | _ \<Rightarrow> None)"

definition lua_getfield :: "lua_State \<Rightarrow> int \<Rightarrow> string \<Rightarrow> lua_State option" where
  "lua_getfield l idx name =
     (case lua_value l idx of
        Some (LTable t) \<Rightarrow> Some (push (table_get t (LString name)) l)
      | _ \<Rightarrow> None)"

definition lua_call :: "env \<Rightarrow> lua_State \<Rightarrow> nat \<Rightarrow> nat \<Rightarrow> lua_State option" where
  "lua_call e l nargs nresults =
     (if length (stack l) \<le> nargs then None
      else case stack l ! nargs of
             LFunction f \<Rightarrow>
               Some (l\<lparr>stack := replicate nresults (call e f (rev (take nargs (stack l))))
                                 @ drop (nargs + 1) (stack l)\<rparr>)
           | _ \<Rightarrow> None)"

definition lua_istable :: "lua_State \<Rightarrow> int \<Rightarrow> bool" where
  "lua_istable l idx = (lua_type l idx = LUA_TTABLE)"

definition lua_isnil :: "lua_State \<Rightarrow> int \<Rightarrow> bool" where
  "lua_isnil l idx = (lua_type l idx = LUA_TNIL)"

definition registry_get :: "lua_State \<Rightarrow> string \<Rightarrow> lval" where
  "registry_get l name = (case map_of (registry l) name of None \<Rightarrow> LNil | Some v \<Rightarrow> v)"

definition registry_set :: "lua_State \<Rightarrow> string \<Rightarrow> lval \<Rightarrow> lua_State" where
  "registry_set l name v = l\<lparr>registry := (name, v) # filter (\<lambda>p. fst p \<noteq> name) (registry l)\<rparr>"

text \<open>
  The table of callbacks is pushed from the registry, and created there when absent.
\<close>

definition push_callbacks :: "lua_State \<Rightarrow> lua_State" where
  "push_callbacks l =
     (let l1 = push (registry_get l ''PiSerializerCallbacks'') l in
      if lua_isnil l1 (-1) then
        (let l2 = lua_pop l1 1; l3 = lua_newtable l2 in
         registry_set l3 ''PiSerializerCallbacks'' (LTable []))
      else l1)"

text \<open>
  The loop of \<open>Serialize\<close> over the entries of the callbacks table still to visit, in the
  order of \<open>lua_next\<close>.
\<close>

fun serialize_loop ::
  "env \<Rightarrow> lua_State \<Rightarrow> int \<Rightarrow> (lval \<times> lval) list \<Rightarrow> (error, unit) outcome" where
  "serialize_loop e l savetable [] = Returned (lua_pop l 1) ()"
| "serialize_loop e l savetable ((k, v) # es) =
     (let l1 = push v (push k (lua_pop l 1));
          l2 = lua_pushinteger l1 1 in
      case lua_gettable l2 (-2) of None \<Rightarrow> Raised LuaRuntimeError l2 | Some l3 \<Rightarrow>
      case lua_call e l3 0 1 of None \<Rightarrow> Raised LuaRuntimeError l3 | Some l4 \<Rightarrow>
      case lua_pushvalue l4 (-3) of None \<Rightarrow> Raised LuaApiMisuse l4 | Some l5 \<Rightarrow>
      case lua_insert_2 l5 of None \<Rightarrow> Raised LuaApiMisuse l5 | Some l6 \<Rightarrow>
      case lua_settable l6 savetable of None \<Rightarrow> Raised LuaRuntimeError l6 | Some l7 \<Rightarrow>
        serialize_loop e (lua_pop l7 1) savetable es)"

text \<open>
  \<open>Serialize\<close> returns the string it hands to the writer. It starts from a new, empty
  table.
\<close>

definition Serialize :: "env \<Rightarrow> lua_State \<Rightarrow> (error, string) outcome" where
  "Serialize e l =
     (let l1 = lua_newtable l;
          savetable = lua_gettop l1;
          l2 = push_callbacks l1
      in case lua_value l2 (-1) of
           Some (LTable cb) \<Rightarrow>
             (case serialize_loop e (lua_pushnil l2) savetable (lua_next_order e cb) of
                Raised err l' \<Rightarrow> Raised err l'
              | Returned l3 u \<Rightarrow>
                  (let l4 = lua_pop l3 1 in
                   case pickle e l4 savetable [] None of
                     Raised err l' \<Rightarrow> Raised err l'
                   | Returned l5 pickled \<Rightarrow> Returned (lua_pop l5 1) pickled))
         | _ \<Rightarrow> Raised LuaRuntimeError l2)"

text \<open>
  The loop of \<open>Unserialize\<close> over the entries of the callbacks table still to visit, in
  the order of \<open>lua_next\<close>.
\<close>

fun unserialize_loop ::
  "env \<Rightarrow> lua_State \<Rightarrow> int \<Rightarrow> (lval \<times> lval) list \<Rightarrow> (error, unit) outcome" where
  "unserialize_loop e l savetable [] = Returned (lua_pop l 1) ()"
| "unserialize_loop e l savetable ((k, v) # es) =
     (let l1 = push v (push k (lua_pop l 1)) in
      case lua_pushvalue l1 (-2) of None \<Rightarrow> Raised LuaApiMisuse l1 | Some l2 \<Rightarrow>
      let l3 = lua_pushinteger l2 2 in
      case lua_gettable l3 (-3) of None \<Rightarrow> Raised LuaRuntimeError l3 | Some l4 \<Rightarrow>
      case lua_tostring e k of None \<Rightarrow> Raised NullPointerDereference l4 | Some name \<Rightarrow>
      let l4' = l4\<lparr>stack := (stack l4)[1 := tostring_slot e k]\<rparr> in
      case lua_getfield l4' savetable name of None \<Rightarrow> Raised LuaRuntimeError l4' | Some l5 \<Rightarrow>
      let l6 = (if lua_isnil l5 (-1) then lua_newtable (lua_pop l5 1) else l5) in
      case lua_call e l6 1 0 of None \<Rightarrow> Raised LuaRuntimeError l6 | Some l7 \<Rightarrow>
        unserialize_loop e (lua_pop l7 2) savetable es)"

text \<open>
  \<open>Unserialize\<close> of the string the reader gives. The decoded table is on the stack while
  the callbacks run and is popped with the callbacks table at the end.
\<close>

definition Unserialize :: "env \<Rightarrow> lua_State \<Rightarrow> string \<Rightarrow> (error, unit) outcome option" where
  "Unserialize e l pickled =
     (let start = 0 in
      case unpickle e pickled l start of
        None \<Rightarrow> None
      | Some (Raised err l') \<Rightarrow> Some (Raised err l')
      | Some (Returned l1 end) \<Rightarrow>
          Some (if int end - int start \<noteq> int (length pickled) then Raised SavedGameCorruptException l1
                else if \<not> lua_istable l1 (-1) then Raised SavedGameCorruptException l1
                else
                  (let savetable = lua_gettop l1;
                       l2 = push_callbacks l1
                   in case lua_value l2 (-1) of
                        Some (LTable cb) \<Rightarrow>
                          (case unserialize_loop e (lua_pushnil l2) savetable
                                  (lua_next_order e cb) of
                             Raised err l' \<Rightarrow> Raised err l'
                           | Returned l3 u \<Rightarrow> Returned (lua_pop l3 2) ())
                      | _ \<Rightarrow> Raised LuaRuntimeError l2)))"

section \<open>Well-typed input of the encoder\<close>

text \<open>
  The values the encoder is written for: nil, numbers, booleans, strings, tables of such
  keys and values, and userdata whose Lua object is live and is a location or a body.
\<close>

function (sequential) supported :: "env \<Rightarrow> lval \<Rightarrow> bool"
  and supported_entries :: "env \<Rightarrow> (lval \<times> lval) list \<Rightarrow> bool"
where
  "supported e LNil = True"
| "supported e (LNumber x) = True"
| "supported e (LBoolean b) = True"
| "supported e (LString s) = True"
| "supported e (LTable t) = supported_entries e t"
| "supported e (LUserdata i) =
     (case Lookup e i of
        Some (IsaSBodyPath sbp) \<Rightarrow> True
      | Some (IsaBody b) \<Rightarrow> True
      | _ \<Rightarrow> False)"
| "supported e (LLightUserdata p) = False"
| "supported e (LFunction f) = False"
| "supported e (LThread c) = False"
| "supported_entries e [] = True"
| "supported_entries e ((k, v) # es) = (supported e k \<and> supported e v \<and> supported_entries e es)"
  by pat_completeness auto
termination
  by (relation "measure (\<lambda>x. case x of
         Inl (e, v) \<Rightarrow> size v
       | Inr (e, es) \<Rightarrow> size_list (size_prod size size) es)") auto

text \<open>The key that a fatal message prints.\<close>

fun message_key :: "fatal_message \<Rightarrow> string option" where
  "message_key (NoLongerExists key i) = key"
| "message_key (UnsupportedUserdata key) = key"
| "message_key (UnsupportedValue key tn) = key"

text \<open>
  The tables whose keys all have a text under \<open>lua_tostring\<close>: strings and numbers, as
  the names under which modules register.
\<close>

definition named_keys :: "env \<Rightarrow> (lval \<times> lval) list \<Rightarrow> bool" where
  "named_keys e t = list_all (\<lambda>p. lua_tostring e (fst p) \<noteq> None) t"

section \<open>What the text of a value is read back as\<close>

text \<open>
  \<open>text_value x\<close> is the number that the \<open>%f\<close> text of \<open>x\<close> denotes: \<open>x\<close> rounded to
  six decimals. \<open>class_name\<close> is the class under which the decoder pushes a body of the
  given type. \<open>int32\<close> is the range of a C \<open>int\<close>, which the fields of a location and a
  body's index have in the source.
\<close>

definition text_value :: "rat \<Rightarrow> rat" where
  "text_value x =
     (let r = of_nat (round_half_even (\<bar>x\<bar> * 1000000)) / 1000000 in if x < 0 then - r else r)"

fun class_name :: "object_type \<Rightarrow> string option" where
  "class_name BODY = Some ''Body''"
| "class_name SHIP = Some ''Ship''"
| "class_name SPACESTATION = Some ''SpaceStation''"
| "class_name PLANET = Some ''Planet''"
| "class_name STAR = Some ''Star''"
| "class_name PLAYER = Some ''Player''"
| "class_name (OTHER_OBJECT n) = None"

definition int32 :: "int \<Rightarrow> bool" where
  "int32 i = (- (2 ^ 31) \<le> i \<and> i < 2 ^ 31)"

text \<open>
  \<open>read_back e v\<close> is the value that the text of \<open>v\<close> stands for: a number rounded to six
  decimals, a string cut at its first NUL byte, a location rebuilt from its four
  components, a body found again by its index, and for a table the list of what its
  entries are read back as, in the order in which \<open>lua_next\<close> visits the table.
\<close>

function (sequential) read_back :: "env \<Rightarrow> lval \<Rightarrow> lval"
  and read_back_entries :: "env \<Rightarrow> (lval \<times> lval) list \<Rightarrow> (lval \<times> lval) list"
where
  "read_back e (LNumber x) = LNumber (text_value x)"
| "read_back e (LBoolean b) = LBoolean b"
| "read_back e (LString s) = LString (c_str s)"
| "read_back e (LTable t) = LTable (read_back_entries e (lua_next_order e t))"
| "read_back e (LUserdata i) =
     (case Lookup e i of
        Some (IsaSBodyPath p) \<Rightarrow> LUserdata (PushToLuaGC e p)
      | Some (IsaBody b) \<Rightarrow>
          (case LookupBody e (LookupBodyIndex e b) of
             None \<Rightarrow> LNil
           | Some b' \<Rightarrow>
               (case class_name (GetType e b') of
                  None \<Rightarrow> LNil
                | Some c \<Rightarrow> LUserdata (PushToLua e c b')))
      | _ \<Rightarrow> LNil)"
| "read_back e v = LNil"
| "read_back_entries e [] = []"
| "read_back_entries e ((k, v) # es) = (read_back e k, read_back e v) # read_back_entries e es"
  by pat_completeness auto
termination
proof -
  have ins: "size_list f (insort_key g x xs) = size_list f (x # xs)"
    for f :: "lval \<times> lval \<Rightarrow> nat" and g :: "lval \<times> lval \<Rightarrow> nat" and x xs
    by (induction xs) auto
  have srt: "size_list f (sort_key g xs) = size_list f xs"
    for f :: "lval \<times> lval \<Rightarrow> nat" and g :: "lval \<times> lval \<Rightarrow> nat" and xs
    by (induction xs) (auto simp: ins)
  show ?thesis
    by (relation "measure (\<lambda>x. case x of
           Inl (e, v) \<Rightarrow> size v
         | Inr (e, es) \<Rightarrow> size_list (size_prod size size) es)")
       (auto simp: lua_next_order_def srt)
qed

text \<open>No key of the list is the same key as one before it.\<close>

definition keys_apart :: "lval list \<Rightarrow> bool" where
  "keys_apart ks = sorted_wrt (\<lambda>a b. \<not> same_key a b) ks"

text \<open>
  The values that the encoder writes in full and the decoder reads back: booleans,
  strings, numbers whose \<open>%f\<close> text fits the 256-byte buffer, locations, bodies whose
  index is found again as a body of one of the six types, and tables of such keys and
  values in which no two keys are read back as the same key. The bounds on the length of
  a string and on the integers are those of a C \<open>int\<close>.
\<close>

function (sequential) readable :: "env \<Rightarrow> lval \<Rightarrow> bool"
  and readable_entries :: "env \<Rightarrow> (lval \<times> lval) list \<Rightarrow> bool"
where
  "readable e (LNumber x) = (length (show_f x) \<le> 253)"
| "readable e (LBoolean b) = True"
| "readable e (LString s) = (length (c_str s) < 2 ^ 31)"
| "readable e (LTable t) =
     (readable_entries e (lua_next_order e t)
      \<and> keys_apart (map fst (read_back_entries e (lua_next_order e t))))"
| "readable e (LUserdata i) =
     (case Lookup e i of
        Some (IsaSBodyPath p) \<Rightarrow>
          int32 (sectorX p) \<and> int32 (sectorY p) \<and> int32 (systemNum p) \<and> int32 (sbodyId p)
      | Some (IsaBody b) \<Rightarrow>
          int32 (LookupBodyIndex e b)
          \<and> (case LookupBody e (LookupBodyIndex e b) of
                None \<Rightarrow> False
              | Some b' \<Rightarrow> class_name (GetType e b') \<noteq> None)
      | _ \<Rightarrow> False)"
| "readable e v = False"
| "readable_entries e [] = True"
| "readable_entries e ((k, v) # es) = (readable e k \<and> readable e v \<and> readable_entries e es)"
  by pat_completeness auto
termination
proof -
  have ins: "size_list f (insort_key g x xs) = size_list f (x # xs)"
    for f :: "lval \<times> lval \<Rightarrow> nat" and g :: "lval \<times> lval \<Rightarrow> nat" and x xs
    by (induction xs) auto
  have srt: "size_list f (sort_key g xs) = size_list f xs"
    for f :: "lval \<times> lval \<Rightarrow> nat" and g :: "lval \<times> lval \<Rightarrow> nat" and xs
    by (induction xs) (auto simp: ins)
  show ?thesis
    by (relation "measure (\<lambda>x. case x of
           Inl (e, v) \<Rightarrow> size v
         | Inr (e, es) \<Rightarrow> size_list (size_prod size size) es)")
       (auto simp: lua_next_order_def srt)
qed

text \<open>
  The keys that the text holds exactly: booleans, strings without a NUL byte and numbers
  with at most six decimals.
\<close>

fun exact :: "lval \<Rightarrow> bool" where
  "exact (LNumber x) = (of_int \<lfloor>x * 1000000\<rfloor> = x * 1000000)"
| "exact (LBoolean b) = True"
| "exact (LString s) = (NUL \<notin> set s)"
| "exact v = False"

text \<open>\<open>pickled_text e v\<close> is the text of a value in the format of the file's header.\<close>

function (sequential) pickled_text :: "env \<Rightarrow> lval \<Rightarrow> string"
  and pickled_entries :: "env \<Rightarrow> (lval \<times> lval) list \<Rightarrow> string"
where
  "pickled_text e (LNumber x) = ''f'' @ show_f x @ [NL]"
| "pickled_text e (LBoolean b) = (if b then ''b1'' else ''b0'')"
| "pickled_text e (LString s) = ''s'' @ show_nat (length (c_str s)) @ [NL] @ c_str s"
| "pickled_text e (LTable t) = ''t'' @ pickled_entries e (lua_next_order e t) @ ''n''"
| "pickled_text e (LUserdata i) =
     (case Lookup e i of
        Some (IsaSBodyPath p) \<Rightarrow>
          ''uSBodyPath'' @ [NL] @ show_int (sectorX p) @ [NL] @ show_int (sectorY p) @ [NL]
            @ show_int (systemNum p) @ [NL] @ show_int (sbodyId p) @ [NL]
      | Some (IsaBody b) \<Rightarrow> ''uBody'' @ [NL] @ show_int (LookupBodyIndex e b) @ [NL]
      | _ \<Rightarrow> [])"
| "pickled_text e v = []"
| "pickled_entries e [] = []"
| "pickled_entries e ((k, v) # es) = pickled_text e k @ pickled_text e v @ pickled_entries e es"
  by pat_completeness auto
termination
proof -
  have ins: "size_list f (insort_key g x xs) = size_list f (x # xs)"
    for f :: "lval \<times> lval \<Rightarrow> nat" and g :: "lval \<times> lval \<Rightarrow> nat" and x xs
    by (induction xs) auto
  have srt: "size_list f (sort_key g xs) = size_list f xs"
    for f :: "lval \<times> lval \<Rightarrow> nat" and g :: "lval \<times> lval \<Rightarrow> nat" and xs
    by (induction xs) (auto simp: ins)
  show ?thesis
    by (relation "measure (\<lambda>x. case x of
           Inl (e, v) \<Rightarrow> size v
         | Inr (e, es) \<Rightarrow> size_list (size_prod size size) es)")
       (auto simp: lua_next_order_def srt)
qed

section \<open>A concrete identity table and runtime state\<close>

text \<open>
  A small instance of the parameters, for evaluating the functions on concrete inputs:
  Lua object 1 wraps the body at address 100, a ship, whose stable id is 5; Lua object 2
  wraps the location \<open>(3, -7, 12, 5)\<close>; Lua object 3 is of another class; no other id is
  live. Lua function 1 is the save callback of \<open>ModuleA\<close> and returns the table
  \<open>{x = true}\<close>; function 2, its load callback, returns nothing. Every key of a table is
  at position 0, so \<open>lua_next\<close> visits the entries in the order in which they were
  entered.
\<close>

definition demo_path :: SBodyPath where
  "demo_path = \<lparr>sectorX = 3, sectorY = - 7, systemNum = 12, sbodyId = 5\<rparr>"

definition demo_env :: env where
  "demo_env =
     \<lparr>Lookup = (\<lambda>i. if i = 1 then Some (IsaBody 100)
                     else if i = 2 then Some (IsaSBodyPath demo_path)
                     else if i = 3 then Some (IsaOther ''StarSystem'')
                     else None),
      LookupBodyIndex = (\<lambda>b. if b = 100 then 5 else - 1),
      LookupBody = (\<lambda>n. if n = 5 then Some 100 else None),
      GetType = (\<lambda>b. SHIP),
      PushToLua = (\<lambda>c b. 1),
      PushToLuaGC = (\<lambda>p. 2),
      lua_number2str = show_f,
      call = (\<lambda>f args. if f = 1 then LTable [(LString ''x'', LBoolean True)] else LNil),
      slot = (\<lambda>t k. 0)\<rparr>"

definition demo_state :: lua_State where
  "demo_state =
     \<lparr>stack = [],
      registry = [(''PiSerializerCallbacks'',
                   LTable [(LString ''ModuleA'',
                            LTable [(LNumber 1, LFunction 1), (LNumber 2, LFunction 2)])])]\<rparr>"

text \<open>
  A saved blob with the entries \<open>ModuleA = {x = false}\<close> and \<open>ModuleB = {y = true}\<close>;
  only \<open>ModuleA\<close> is registered in \<open>demo_state\<close>.
\<close>

definition saved_blob :: string where
  "saved_blob = ''ts7'' @ [NL] @ ''ModuleAts1'' @ [NL] @ ''xb0ns7'' @ [NL] @ ''ModuleBts1'' @ [NL] @ ''yb1nn''"

definition colliding_table :: lval where
  "colliding_table =
     LTable [(LNumber (1 / 10000000), LBoolean True),
             (LNumber (2 / 10000000), LBoolean False),
             (LString ''c'', LBoolean True)]"

text \<open>
  A runtime that keeps the keys that are positive integers in front, in the order of the
  integers, as the array part of a Lua table does for the keys \<open>1..n\<close>; the other keys
  follow in the order in which they were entered. \<open>entered_3_2_1\<close> is a container whose
  keys were entered in the order \<open>3, 2, 1\<close>.
\<close>

definition array_index :: "lval \<Rightarrow> nat" where
  "array_index k =
     (case k of LNumber x \<Rightarrow> if 0 < x \<and> of_int \<lfloor>x\<rfloor> = x then nat \<lfloor>x\<rfloor> else 0 | _ \<Rightarrow> 0)"

definition array_first :: env where
  "array_first =
     demo_env\<lparr>slot := (\<lambda>t k. if 0 < array_index k then array_index k
                               else Suc (fold max (map (\<lambda>p. array_index (fst p)) t) 0))\<rparr>"

definition entered_3_2_1 :: "(lval \<times> lval) list" where
  "entered_3_2_1 =
     [(LNumber 3, LString ''a''), (LNumber 2, LString ''b''), (LNumber 1, LString ''c'')]"

text \<open>
  A table of modules: the value of \<open>ModuleB\<close> holds a function, and the value of
  \<open>ModuleD\<close> is a coroutine.
\<close>

definition failing_modules :: "(lval \<times> lval) list" where
  "failing_modules =
     [(LString ''ModuleA'', LTable [(LString ''x'', LBoolean True)]),
      (LString ''ModuleB'', LTable [(LNumber 1, LFunction 1)]),
      (LString ''ModuleC'', LNumber 3),
      (LString ''ModuleD'', LThread 0)]"

text \<open>
  A container with a number of more than six decimals, a string with a NUL byte, a
  location, a body, and a container used as a key.
\<close>

definition mixed_table :: "(lval \<times> lval) list" where
  "mixed_table =
     [(LString ''pos'', LUserdata 2),
      (LNumber (5 / 2), LNumber (1 / 3)),
      (LBoolean True, LString (''a'' @ [NUL] @ ''b'')),
      (LTable [(LString ''x'', LBoolean False)], LUserdata 1),
      (LString ''ship'', LTable [(LNumber 1, LString ''one''), (LNumber 2, LString ''two'')])]"

section \<open>Auxiliary facts\<close>

subsection \<open>The stack across pickle and unpickle\<close>

lemma set_lua_next_order: "set (lua_next_order e t) = set t"
  by (simp add: lua_next_order_def)

lemma length_lua_next_order: "length (lua_next_order e t) = length t"
  by (simp add: lua_next_order_def)

lemma supported_entries_iff:
  "supported_entries e es \<longleftrightarrow> (\<forall>p \<in> set es. supported e (fst p) \<and> supported e (snd p))"
  by (induction es) auto

lemma supported_lua_next_order:
  "supported_entries e (lua_next_order e t) = supported_entries e t"
  by (simp add: supported_entries_iff set_lua_next_order)

lemma pop_push: "lua_pop (push v l) 1 = l" "lua_pop (push v l) (Suc 0) = l"
  by (simp_all add: lua_pop_def push_def)

lemma pickle_userdata_state:
  "pickle_userdata e l i out key = Returned l' out' \<Longrightarrow> l' = l"
  by (auto simp: pickle_userdata_def Error_def Let_def split: option.splits LuaObjectBase.splits)

lemma pickle_keeps_state:
  "pickle_val e l v out key = Returned l' out' \<Longrightarrow> l' = l"
  "pickle_entries e l es out key = Returned l'' out'' \<Longrightarrow> l'' = lua_pop l 1"
proof (induction e l v out key and e l es out key arbitrary: l' out' and l'' out''
       rule: pickle_val_pickle_entries.induct)
  case (5 e l t out key)
  from "5.prems" obtain l3 o3 where
    pe: "pickle_entries e (lua_pushnil (push (LTable t) l)) (lua_next_order e t) (out @ ''t'') key = Returned l3 o3"
    and l': "l' = lua_pop l3 1"
    by (auto simp: Let_def split: outcome.splits)
  from "5.IH" [OF refl refl refl pe] have "l3 = lua_pop (lua_pushnil (push (LTable t) l)) 1" .
  with l' show ?case by (simp add: lua_pushnil_def pop_push)
next
  case (6 e l i out key)
  then show ?case by (simp add: pickle_userdata_state)
next
  case (11 e l k v es out key)
  define l1 where "l1 = push v (push k (lua_pop l 1))"
  show ?case
  proof (cases "key = None")
    case False
    from "11.prems" False obtain l2 o2 l3 o3 where
      a: "pickle_val e l1 k out key = Returned l2 o2"
      and b: "pickle_val e l2 v o2 key = Returned l3 o3"
      and c: "pickle_entries e (lua_pop l3 1) es o3 key = Returned l'' out''"
      by (auto simp: Let_def l1_def split: outcome.splits)
    from "11.IH"(1) [OF l1_def False a] have l2: "l2 = l1" .
    from "11.IH"(2) [OF l1_def False a b] have l3: "l3 = l1" using l2 by simp
    from "11.IH"(3) [OF l1_def False a b c] have "l'' = lua_pop (lua_pop l3 1) 1" .
    with l3 show ?thesis by (simp add: l1_def lua_pop_def push_def)
  next
    case True
    define l2 where "l2 = push (tostring_slot e k) l1"
    define k' where "k' = lua_tostring e k"
    from "11.prems" True obtain l3 o3 l4 o4 where
      a: "pickle_val e l2 k out k' = Returned l3 o3"
      and b: "pickle_val e l3 v o3 k' = Returned l4 o4"
      and c: "pickle_entries e (lua_pop (lua_pop l4 1) 1) es o4 key = Returned l'' out''"
      by (auto simp: Let_def l1_def l2_def k'_def split: outcome.splits)
    have nn: "\<not> key \<noteq> None" using True by simp
    from "11.IH"(4) [OF l1_def nn l2_def k'_def a] have l3: "l3 = l2" .
    from "11.IH"(5) [OF l1_def nn l2_def k'_def a b] have l4: "l4 = l2" using l3 by simp
    from "11.IH"(6) [OF l1_def nn l2_def k'_def a b c]
    have "l'' = lua_pop (lua_pop (lua_pop l4 1) 1) 1" .
    with l4 show ?thesis by (simp add: l1_def l2_def lua_pop_def push_def)
  qed
qed (auto simp: Error_def Let_def pop_push)

lemma unpickle_userdata_stack:
  "unpickle_userdata e buf l pos = Returned l' p' \<Longrightarrow> \<exists>v. l' = push v l"
  by (auto simp: unpickle_userdata_def unpickle_sbodypath_def unpickle_body_def push_body_def Let_def
      split: option.splits sum.splits prod.splits if_splits object_type.splits outcome.splits)

lemma unpickle_scalar_stack:
  "unpickle_number buf l pos = Returned l' p' \<Longrightarrow> \<exists>v. l' = push v l"
  "unpickle_boolean buf l pos = Returned l' p' \<Longrightarrow> \<exists>v. l' = push v l"
  "unpickle_string buf l pos = Returned l' p' \<Longrightarrow> \<exists>v. l' = push v l"
  by (auto simp: unpickle_number_def unpickle_boolean_def unpickle_string_def Let_def
        lua_pushnumber_def lua_pushboolean_def lua_pushlstring_def
      split: option.splits strtod_result.splits if_splits)

lemma rawset_shape:
  "lua_rawset_3 l2 = Some l3 \<Longrightarrow> l2 = push v (push k l) \<Longrightarrow> stack l = LTable t # rest
   \<Longrightarrow> l3 = l\<lparr>stack := LTable (table_set t k v) # rest\<rparr>"
  by (auto simp: lua_rawset_3_def push_def split: list.splits lval.splits if_splits)

lemma unpickle_n_pushes_one:
  "unpickle_n n e buf l pos = Some (Returned l' p') \<Longrightarrow> \<exists>v. l' = push v l"
  "table_loop_n n e buf l pos = Some (Returned l'' p'') \<Longrightarrow> stack l = LTable t # rest
     \<Longrightarrow> \<exists>t'. l'' = l\<lparr>stack := LTable t' # rest\<rparr>"
proof (induction n e buf l pos and n e buf l pos arbitrary: l' p' and l'' p'' t rest
       rule: unpickle_n_table_loop_n.induct)
  case (1 e buf l pos)
  then show ?case by simp
next
  case (2 n e buf l pos)
  from "2.prems" obtain ty where pk: "peek buf pos = Some ty"
    by (auto split: option.splits)
  show ?case
  proof (cases "ty = CHR ''t''")
    case True
    with "2.prems" pk have tl: "table_loop_n n e buf (lua_newtable l) (pos + 1) = Some (Returned l' p')"
      by (simp add: Let_def)
    have st: "stack (lua_newtable l) = LTable [] # stack l"
      by (simp add: lua_newtable_def push_def)
    have fne: "ty \<noteq> CHR ''f''" "ty \<noteq> CHR ''b''" "ty \<noteq> CHR ''s''" using True by simp_all
    from "2.IH" [OF pk refl fne True tl st]
    obtain t' where "l' = (lua_newtable l)\<lparr>stack := LTable t' # stack l\<rparr>" by blast
    then show ?thesis by (auto simp: lua_newtable_def push_def)
  next
    case False
    with "2.prems" pk show ?thesis
      by (auto simp: Let_def split: if_splits dest: unpickle_scalar_stack unpickle_userdata_stack)
  qed
next
  case (3 e buf l pos)
  then show ?case by simp
next
  case (4 n e buf l pos)
  from "4.prems"(1) obtain c where pk: "peek buf pos = Some c"
    by (auto split: option.splits)
  show ?case
  proof (cases "c = CHR ''n''")
    case True
    with "4.prems"(1) pk have "l'' = l" by simp
    moreover have "l = l\<lparr>stack := LTable t # rest\<rparr>"
      using "4.prems"(2) by (cases l) simp
    ultimately show ?thesis by metis
  next
    case False
    from "4.prems"(1) pk False obtain l1 p1 l2 p2 l3 where
      a: "unpickle_n n e buf l pos = Some (Returned l1 p1)"
      and b: "unpickle_n n e buf l1 p1 = Some (Returned l2 p2)"
      and r: "lua_rawset_3 l2 = Some l3"
      and c: "table_loop_n n e buf l3 p2 = Some (Returned l'' p'')"
      by (auto split: option.splits outcome.splits)
    from "4.IH"(1) [OF pk False a] obtain k where l1: "l1 = push k l" by blast
    from "4.IH"(2) [OF pk False a refl b] obtain v where l2: "l2 = push v l1" by blast
    from rawset_shape [OF r] l1 l2 "4.prems"(2)
    have l3: "l3 = l\<lparr>stack := LTable (table_set t k v) # rest\<rparr>" by simp
    then have st3: "stack l3 = LTable (table_set t k v) # rest" by simp
    from "4.IH"(3) [OF pk False a refl b refl r c st3]
    obtain t' where "l'' = l3\<lparr>stack := LTable t' # rest\<rparr>" by blast
    with l3 have "l'' = l\<lparr>stack := LTable t' # rest\<rparr>" by simp
    then show ?thesis by blast
  qed
qed

lemma pickle_userdata_supported:
  "supported e (LUserdata i) \<Longrightarrow> \<exists>out'. pickle_userdata e l i out key = Returned l out'"
  by (auto simp: pickle_userdata_def Let_def split: option.splits LuaObjectBase.splits)

lemma pickle_returns:
  "supported e v \<Longrightarrow> \<exists>l' out'. pickle_val e l v out key = Returned l' out'"
  "supported_entries e es \<Longrightarrow> \<exists>l' out'. pickle_entries e l es out key = Returned l' out'"
proof (induction e l v out key and e l es out key
       rule: pickle_val_pickle_entries.induct)
  case (5 e l t out key)
  from "5.prems" have "supported_entries e (lua_next_order e t)"
    by (simp add: supported_lua_next_order)
  from "5.IH" [OF refl refl refl this] show ?case
    by (auto simp: Let_def)
next
  case (6 e l i out key)
  from pickle_userdata_supported [OF "6.prems", of l out key] show ?case by auto
next
  case (11 e l k v es out key)
  define l1 where "l1 = push v (push k (lua_pop l 1))"
  from "11.prems" have sk: "supported e k" and sv: "supported e v" and ses: "supported_entries e es"
    by simp_all
  show ?case
  proof (cases "key = None")
    case False
    from "11.IH"(1) [OF l1_def False sk] obtain l2 o2 where
      a: "pickle_val e l1 k out key = Returned l2 o2" by blast
    from "11.IH"(2) [OF l1_def False a sv] obtain l3 o3 where
      b: "pickle_val e l2 v o2 key = Returned l3 o3" by blast
    from "11.IH"(3) [OF l1_def False a b ses] obtain l4 o4 where
      c: "pickle_entries e (lua_pop l3 1) es o3 key = Returned l4 o4" by blast
    from False a b c show ?thesis by (simp add: Let_def l1_def)
  next
    case True
    define l2 where "l2 = push (tostring_slot e k) l1"
    define k' where "k' = lua_tostring e k"
    have nn: "\<not> key \<noteq> None" using True by simp
    from "11.IH"(4) [OF l1_def nn l2_def k'_def sk] obtain l3 o3 where
      a: "pickle_val e l2 k out k' = Returned l3 o3" by blast
    from "11.IH"(5) [OF l1_def nn l2_def k'_def a sv] obtain l4 o4 where
      b: "pickle_val e l3 v o3 k' = Returned l4 o4" by blast
    from "11.IH"(6) [OF l1_def nn l2_def k'_def a b ses] obtain l5 o5 where
      c: "pickle_entries e (lua_pop (lua_pop l4 1) 1) es o4 key = Returned l5 o5" by blast
    from True a b c show ?thesis by (simp add: Let_def l1_def l2_def k'_def)
  qed
qed (simp_all add: Let_def)

lemma pickle_userdata_returned_supported:
  "pickle_userdata e l i out key = Returned l' out' \<Longrightarrow> supported e (LUserdata i)"
proof (cases "Lookup e i")
  case None
  assume "pickle_userdata e l i out key = Returned l' out'"
  with None show ?thesis by (simp add: pickle_userdata_def Let_def Error_def)
next
  case (Some lo)
  assume "pickle_userdata e l i out key = Returned l' out'"
  with Some show ?thesis
    by (cases lo) (simp_all add: pickle_userdata_def Let_def Error_def)
qed

lemma pickle_returned_supported:
  "pickle_val e l v out key = Returned l' out' \<Longrightarrow> supported e v"
  "pickle_entries e l es out key = Returned l'' out'' \<Longrightarrow> supported_entries e es"
proof (induction e l v out key and e l es out key arbitrary: l' out' and l'' out''
       rule: pickle_val_pickle_entries.induct)
  case (5 e l t out key)
  from "5.prems" obtain l3 o3 where
    pe: "pickle_entries e (lua_pushnil (push (LTable t) l)) (lua_next_order e t) (out @ ''t'') key = Returned l3 o3"
    by (auto simp: Let_def split: outcome.splits)
  from "5.IH" [OF refl refl refl pe] show ?case by (simp add: supported_lua_next_order)
next
  case (6 e l i out key)
  from "6.prems" have "pickle_userdata e l i out key = Returned l' out'" by simp
  then show ?case by (rule pickle_userdata_returned_supported)
next
  case (11 e l k v es out key)
  define l1 where "l1 = push v (push k (lua_pop l 1))"
  show ?case
  proof (cases "key = None")
    case False
    from "11.prems" False obtain l2 o2 l3 o3 where
      a: "pickle_val e l1 k out key = Returned l2 o2"
      and b: "pickle_val e l2 v o2 key = Returned l3 o3"
      and c: "pickle_entries e (lua_pop l3 1) es o3 key = Returned l'' out''"
      by (auto simp: Let_def l1_def split: outcome.splits)
    from "11.IH"(1) [OF l1_def False a] "11.IH"(2) [OF l1_def False a b]
      "11.IH"(3) [OF l1_def False a b c]
    show ?thesis by simp
  next
    case True
    define l2 where "l2 = push (tostring_slot e k) l1"
    define k' where "k' = lua_tostring e k"
    from "11.prems" True obtain l3 o3 l4 o4 where
      a: "pickle_val e l2 k out k' = Returned l3 o3"
      and b: "pickle_val e l3 v o3 k' = Returned l4 o4"
      and c: "pickle_entries e (lua_pop (lua_pop l4 1) 1) es o4 key = Returned l'' out''"
      by (auto simp: Let_def l1_def l2_def k'_def split: outcome.splits)
    have nn: "\<not> key \<noteq> None" using True by simp
    from "11.IH"(4) [OF l1_def nn l2_def k'_def a] "11.IH"(5) [OF l1_def nn l2_def k'_def a b]
      "11.IH"(6) [OF l1_def nn l2_def k'_def a b c]
    show ?thesis by simp
  qed
qed (simp_all add: Error_def)

lemma pickle_userdata_raised:
  "pickle_userdata e l i out key = Raised err l' \<Longrightarrow>
     \<exists>m. err = FatalError m \<and> message_key m = key"
  by (auto simp: pickle_userdata_def Let_def Error_def split: option.splits LuaObjectBase.splits)

lemma pickle_raised_names_key:
  "pickle_val e l v out key = Raised err l' \<Longrightarrow> key \<noteq> None \<Longrightarrow>
     \<exists>m. err = FatalError m \<and> message_key m = key"
  "pickle_entries e l es out key = Raised err' l'' \<Longrightarrow> key \<noteq> None \<Longrightarrow>
     \<exists>m. err' = FatalError m \<and> message_key m = key"
proof (induction e l v out key and e l es out key arbitrary: err l' and err' l''
       rule: pickle_val_pickle_entries.induct)
  case (5 e l t out key)
  from "5.prems"(1) have
    pe: "pickle_entries e (lua_pushnil (push (LTable t) l)) (lua_next_order e t) (out @ ''t'') key = Raised err l'"
    by (auto simp: Let_def split: outcome.splits)
  from "5.IH" [OF refl refl refl pe "5.prems"(2)] show ?case .
next
  case (6 e l i out key)
  then show ?case by (simp add: pickle_userdata_raised)
next
  case (11 e l k v es out key)
  define l1 where "l1 = push v (push k (lua_pop l 1))"
  note kn = "11.prems"(2)
  from "11.prems"(1) kn consider
    (a) "pickle_val e l1 k out key = Raised err' l''"
    | (b) l2 o2 where "pickle_val e l1 k out key = Returned l2 o2"
        "pickle_val e l2 v o2 key = Raised err' l''"
    | (c) l2 o2 l3 o3 where "pickle_val e l1 k out key = Returned l2 o2"
        "pickle_val e l2 v o2 key = Returned l3 o3"
        "pickle_entries e (lua_pop l3 1) es o3 key = Raised err' l''"
    by (auto simp: Let_def l1_def split: outcome.splits)
  then show ?case
  proof cases
    case a
    from "11.IH"(1) [OF l1_def kn a kn] show ?thesis .
  next
    case b
    from "11.IH"(2) [OF l1_def kn b(1) b(2) kn] show ?thesis .
  next
    case c
    from "11.IH"(3) [OF l1_def kn c(1) c(2) c(3) kn] show ?thesis .
  qed
qed (auto simp: Error_def Let_def)

lemma pickle_userdata_raised_fatal:
  "pickle_userdata e l i out key = Raised err l' \<Longrightarrow> \<exists>m. err = FatalError m"
  by (auto simp: pickle_userdata_def Let_def Error_def split: option.splits LuaObjectBase.splits)

lemma pickle_raised_fatal:
  "pickle_val e l v out key = Raised err l' \<Longrightarrow> \<exists>m. err = FatalError m"
  "pickle_entries e l es out key = Raised err' l'' \<Longrightarrow> \<exists>m. err' = FatalError m"
proof (induction e l v out key and e l es out key arbitrary: err l' and err' l''
       rule: pickle_val_pickle_entries.induct)
  case (5 e l t out key)
  from "5.prems" have
    pe: "pickle_entries e (lua_pushnil (push (LTable t) l)) (lua_next_order e t) (out @ ''t'') key
           = Raised err l'"
    by (auto simp: Let_def split: outcome.splits)
  from "5.IH" [OF refl refl refl pe] show ?case .
next
  case (6 e l i out key)
  then show ?case by (simp add: pickle_userdata_raised_fatal)
next
  case (11 e l k v es out key)
  define l1 where "l1 = push v (push k (lua_pop l 1))"
  show ?case
  proof (cases "key = None")
    case False
    from "11.prems" False consider
      (a) "pickle_val e l1 k out key = Raised err' l''"
      | (b) l2 o2 where "pickle_val e l1 k out key = Returned l2 o2"
          "pickle_val e l2 v o2 key = Raised err' l''"
      | (c) l2 o2 l3 o3 where "pickle_val e l1 k out key = Returned l2 o2"
          "pickle_val e l2 v o2 key = Returned l3 o3"
          "pickle_entries e (lua_pop l3 1) es o3 key = Raised err' l''"
      by (auto simp: Let_def l1_def split: outcome.splits)
    then show ?thesis
    proof cases
      case a
      from "11.IH"(1) [OF l1_def False a] show ?thesis .
    next
      case b
      from "11.IH"(2) [OF l1_def False b(1) b(2)] show ?thesis .
    next
      case c
      from "11.IH"(3) [OF l1_def False c(1) c(2) c(3)] show ?thesis .
    qed
  next
    case True
    define l2 where "l2 = push (tostring_slot e k) l1"
    define k' where "k' = lua_tostring e k"
    have nn: "\<not> key \<noteq> None" using True by simp
    from "11.prems" True consider
      (a) "pickle_val e l2 k out k' = Raised err' l''"
      | (b) l3 o3 where "pickle_val e l2 k out k' = Returned l3 o3"
          "pickle_val e l3 v o3 k' = Raised err' l''"
      | (c) l3 o3 l4 o4 where "pickle_val e l2 k out k' = Returned l3 o3"
          "pickle_val e l3 v o3 k' = Returned l4 o4"
          "pickle_entries e (lua_pop (lua_pop l4 1) 1) es o4 key = Raised err' l''"
      by (auto simp: Let_def l1_def l2_def k'_def split: outcome.splits)
    then show ?thesis
    proof cases
      case a
      from "11.IH"(4) [OF l1_def nn l2_def k'_def a] show ?thesis .
    next
      case b
      from "11.IH"(5) [OF l1_def nn l2_def k'_def b(1) b(2)] show ?thesis .
    next
      case c
      from "11.IH"(6) [OF l1_def nn l2_def k'_def c(1) c(2) c(3)] show ?thesis .
    qed
  qed
qed (auto simp: Error_def Let_def)

lemma has_text_supported: "lua_tostring e k \<noteq> None \<Longrightarrow> supported e k"
  by (cases k) (simp_all add: lua_tostring_def)

lemma named_keys_lua_next_order: "named_keys e (lua_next_order e t) = named_keys e t"
  by (simp add: named_keys_def list_all_iff set_lua_next_order)

lemma pickle_toplevel_names_entry:
  "pickle_entries e l es out None = Raised err l' \<Longrightarrow> named_keys e es \<Longrightarrow>
     \<exists>m pre kk vv post. err = FatalError m \<and> es = pre @ (kk, vv) # post
        \<and> supported_entries e pre \<and> \<not> supported e vv \<and> message_key m = lua_tostring e kk"
proof (induction es arbitrary: l out)
  case Nil
  then show ?case by simp
next
  case (Cons p es)
  obtain k v where p: "p = (k, v)" by (cases p)
  define l1 where "l1 = push v (push k (lua_pop l 1))"
  define l2 where "l2 = push (tostring_slot e k) l1"
  define k' where "k' = lua_tostring e k"
  from Cons.prems(2) p have k'n: "k' \<noteq> None" and rest: "named_keys e es"
    by (simp_all add: named_keys_def k'_def)
  have sk: "supported e k" using k'n unfolding k'_def by (rule has_text_supported)
  from pickle_returns(1) [OF sk, of l2 out k'] obtain l3 o3 where
    a: "pickle_val e l2 k out k' = Returned l3 o3" by blast
  show ?case
  proof (cases "supported e v")
    case False
    from Cons.prems(1) p a have "\<exists>err1 l1'. pickle_val e l3 v o3 k' = Raised err1 l1'"
      using pickle_returned_supported(1) [of e l3 v o3 k'] False
      by (cases "pickle_val e l3 v o3 k'") auto
    then obtain err1 l1' where b: "pickle_val e l3 v o3 k' = Raised err1 l1'" by blast
    with Cons.prems(1) p a have e1: "err1 = err"
      by (simp add: Let_def l1_def l2_def k'_def)
    from pickle_raised_names_key(1) [OF b k'n] e1 obtain m where
      m: "err = FatalError m" "message_key m = k'" by blast
    have "p # es = [] @ (k, v) # es" "supported_entries e []" by (simp_all add: p)
    with m False show ?thesis unfolding k'_def by blast
  next
    case True
    from pickle_returns(1) [OF True, of l3 o3 k'] obtain l4 o4 where
      b: "pickle_val e l3 v o3 k' = Returned l4 o4" by blast
    from Cons.prems(1) p a b have
      c: "pickle_entries e (lua_pop (lua_pop l4 1) 1) es o4 None = Raised err l'"
      by (simp add: Let_def l1_def l2_def k'_def)
    from Cons.IH [OF c rest] obtain m pre kk vv post where
      h: "err = FatalError m" "es = pre @ (kk, vv) # post" "supported_entries e pre"
        "\<not> supported e vv" "message_key m = lua_tostring e kk" by blast
    have "p # es = ((k, v) # pre) @ (kk, vv) # post" using h(2) p by simp
    moreover have "supported_entries e ((k, v) # pre)" using sk True h(3) by simp
    ultimately show ?thesis using h(1,4,5) by blast
  qed
qed
subsection \<open>Printing and reading decimal numbers\<close>

lemma of_char_digit_char: "d < 10 \<Longrightarrow> (of_char (digit_char d) :: nat) = 48 + d"
  by (simp add: digit_char_def)

lemma digit_val_digit_char: "d < 10 \<Longrightarrow> digit_val (digit_char d) = Some d"
  by (simp add: digit_val_def of_char_digit_char Let_def)

lemma is_digit_digit_char: "d < 10 \<Longrightarrow> is_digit 10 (digit_char d)"
  by (simp add: is_digit_def digit_val_digit_char)

lemma is_digit_10_range: "is_digit 10 c \<Longrightarrow> 48 \<le> (of_char c :: nat) \<and> (of_char c :: nat) \<le> 57"
  by (auto simp: is_digit_def digit_val_def Let_def split: if_splits)

lemma is_digit_10_neq:
  assumes "is_digit 10 c"
  shows "c \<noteq> NUL" "c \<noteq> NL" "c \<noteq> CHR ''-''" "c \<noteq> CHR ''+''" "c \<noteq> CHR ''.''"
    "c \<noteq> CHR ''x''" "c \<noteq> CHR ''X''" "c \<noteq> CHR ''n''" "c \<noteq> CHR ''i''"
    "c \<noteq> CHR ''I''" "c \<noteq> CHR ''N''" "\<not> isspace c"
  using is_digit_10_range [OF assms] by (auto simp: isspace_def)

lemma digit_char_zero: "d < 10 \<Longrightarrow> digit_char d = CHR ''0'' \<longleftrightarrow> d = 0"
proof -
  assume d: "d < 10"
  have "digit_char d = CHR ''0'' \<longleftrightarrow> (of_char (digit_char d) :: nat) = of_char (CHR ''0'')"
    by (simp only: of_char_eq_iff)
  also have "\<dots> \<longleftrightarrow> d = 0" using d by (simp add: of_char_digit_char)
  finally show ?thesis .
qed

lemma not_digit_sep:
  "\<not> is_digit 10 NL" "\<not> is_digit 8 NL" "\<not> is_digit 10 (CHR ''.'')" "\<not> is_digit 16 NL"
  by (simp_all add: is_digit_def digit_val_def Let_def)

lemma is_dec_show_nat: "list_all (is_digit 10) (show_nat n)"
proof (induction n rule: show_nat.induct)
  case (1 n)
  show ?case
  proof (cases "n < 10")
    case True
    then show ?thesis by (subst show_nat.simps) (simp add: is_digit_digit_char)
  next
    case False
    have "n mod 10 < 10" by simp
    with 1 [OF False] False show ?thesis
      by (subst show_nat.simps) (simp add: is_digit_digit_char)
  qed
qed

lemma show_nat_nonempty: "show_nat n \<noteq> []"
  by (subst show_nat.simps) simp

lemma is_dec_takeWhile:
  "list_all (is_digit 10) s \<Longrightarrow> \<not> is_digit 10 c \<Longrightarrow> takeWhile (is_digit 10) (s @ c # r) = s"
  by (induction s) auto

lemma is_dec_takeWhile_all:
  "list_all (is_digit 10) s \<Longrightarrow> takeWhile (is_digit 10) s = s"
  by (induction s) auto

lemma digits_value_snoc:
  "digits_value b (s @ [c]) = digits_value b s * b + the (digit_val c)"
  by (simp add: digits_value_def)

lemma digits_value_show_nat: "digits_value 10 (show_nat n) = n"
proof (induction n rule: show_nat.induct)
  case (1 n)
  show ?case
  proof (cases "n < 10")
    case True
    then show ?thesis
      by (subst show_nat.simps) (simp add: digits_value_def digit_val_digit_char)
  next
    case False
    have "digits_value 10 (show_nat n)
           = digits_value 10 (show_nat (n div 10)) * 10 + the (digit_val (digit_char (n mod 10)))"
      using False by (subst show_nat.simps) (simp add: digits_value_snoc)
    also have "\<dots> = (n div 10) * 10 + n mod 10"
      using 1 [OF False] by (simp add: digit_val_digit_char)
    finally show ?thesis by simp
  qed
qed

lemma hd_show_nat: "hd (show_nat n) = CHR ''0'' \<longleftrightarrow> n = 0"
proof (induction n rule: show_nat.induct)
  case (1 n)
  show ?case
  proof (cases "n < 10")
    case True
    then show ?thesis by (subst show_nat.simps) (simp add: digit_char_zero)
  next
    case False
    then have "hd (show_nat n) = hd (show_nat (n div 10))"
      by (subst show_nat.simps) (simp add: show_nat_nonempty)
    with 1 [OF False] False show ?thesis by auto
  qed
qed

lemma hd_is_dec:
  "list_all (is_digit 10) s \<Longrightarrow> s \<noteq> [] \<Longrightarrow> is_digit 10 (hd s)"
  by (cases s) auto

lemma length_show_nat: "0 < k \<Longrightarrow> n < 10 ^ k \<Longrightarrow> length (show_nat n) \<le> k"
proof (induction n arbitrary: k rule: show_nat.induct)
  case (1 n)
  show ?case
  proof (cases "n < 10")
    case True
    with "1.prems" show ?thesis by (subst show_nat.simps) simp
  next
    case False
    have "k \<noteq> 1" using False "1.prems" by auto
    with "1.prems" obtain j where k: "k = Suc j" and j: "0 < j"
      by (cases k) auto
    from "1.prems" k have "n div 10 < 10 ^ j"
      by (simp add: less_mult_imp_div_less mult.commute)
    from "1.IH" [OF False j this] k False show ?thesis
      by (subst show_nat.simps) simp
  qed
qed
lemma show_nat_0: "show_nat 0 = ''0''"
  by (subst show_nat.simps) (simp add: digit_char_zero)

lemma strtol_digits:
  assumes dec: "list_all (is_digit 10) (d # ds)" and nz: "d \<noteq> CHR ''0''"
  shows "strtol (d # ds @ NL # r)
           = Some (min LONG_MAX (int (digits_value 10 (d # ds))), Suc (length ds))"
    and "strtol (CHR ''-'' # d # ds @ NL # r)
           = Some (max LONG_MIN (- int (digits_value 10 (d # ds))), Suc (Suc (length ds)))"
proof -
  from dec have d: "is_digit 10 d" by simp
  note dn = is_digit_10_neq [OF d]
  have tw: "takeWhile (is_digit 10) (d # ds @ NL # r) = d # ds"
    using is_dec_takeWhile [OF dec not_digit_sep(1), of r] by simp
  have sp: "\<not> isspace (CHR ''-'')" by (simp add: isspace_def)
  show "strtol (d # ds @ NL # r)
           = Some (min LONG_MAX (int (digits_value 10 (d # ds))), Suc (length ds))"
    using dn nz tw by (simp add: strtol_def Let_def)
  show "strtol (CHR ''-'' # d # ds @ NL # r)
           = Some (max LONG_MIN (- int (digits_value 10 (d # ds))), Suc (Suc (length ds)))"
    using dn nz tw sp by (simp add: strtol_def Let_def)
qed

lemma strtol_zero:
  "strtol (''0'' @ NL # r) = Some (0, 1)"
  "strtol (''-0'' @ NL # r) = Some (0, 2)"
proof -
  have d8: "is_digit 8 (CHR ''0'')" "\<not> is_digit 8 NL"
    by (simp_all add: is_digit_def digit_val_def Let_def)
  have tw: "takeWhile (is_digit 8) (CHR ''0'' # NL # r) = ''0''"
    using d8 by simp
  have sp: "\<not> isspace (CHR ''0'')" "\<not> isspace (CHR ''-'')"
    by (simp_all add: isspace_def)
  have dv: "digits_value 8 ''0'' = 0"
    by (simp add: digits_value_def digit_val_def Let_def)
  show "strtol (''0'' @ NL # r) = Some (0, 1)"
    using tw sp dv by (simp add: strtol_def Let_def LONG_MAX_def)
  show "strtol (''-0'' @ NL # r) = Some (0, 2)"
    using tw sp dv by (simp add: strtol_def Let_def LONG_MIN_def)
qed

lemma strtol_show_nat:
  "strtol (show_nat n @ NL # r) = Some (min LONG_MAX (int n), length (show_nat n))"
proof (cases "n = 0")
  case True
  then show ?thesis using strtol_zero(1) [of r] by (simp add: show_nat_0 LONG_MAX_def)
next
  case False
  obtain d ds where s: "show_nat n = d # ds"
    using show_nat_nonempty [of n] by (cases "show_nat n") auto
  from hd_show_nat [of n] False s have nz: "d \<noteq> CHR ''0''" by simp
  from is_dec_show_nat [of n] s have dec: "list_all (is_digit 10) (d # ds)" by simp
  from strtol_digits(1) [OF dec nz, of r] digits_value_show_nat [of n] s
  show ?thesis by simp
qed

lemma strtol_show_int:
  assumes "LONG_MIN \<le> i" and "i \<le> LONG_MAX"
  shows "strtol (show_int i @ NL # r) = Some (i, length (show_int i))"
proof (cases "i < 0")
  case False
  with assms strtol_show_nat [of "nat i" r] show ?thesis
    by (simp add: show_int_def)
next
  case True
  then have n0: "nat (- i) \<noteq> 0" by simp
  obtain d ds where s: "show_nat (nat (- i)) = d # ds"
    using show_nat_nonempty [of "nat (- i)"] by (cases "show_nat (nat (- i))") auto
  from hd_show_nat [of "nat (- i)"] n0 s have nz: "d \<noteq> CHR ''0''" by simp
  from is_dec_show_nat [of "nat (- i)"] s have dec: "list_all (is_digit 10) (d # ds)" by simp
  from strtol_digits(2) [OF dec nz, of r] digits_value_show_nat [of "nat (- i)"] s True assms
  show ?thesis by (simp add: show_int_def)
qed

lemma long_to_int_id:
  "- (2 ^ 31) \<le> i \<Longrightarrow> i < 2 ^ 31 \<Longrightarrow> long_to_int i = i"
  unfolding long_to_int_def by (simp add: signed_of_int signed_take_bit_int_eq_self)

lemma int32_in_long:
  "- (2 ^ 31) \<le> i \<Longrightarrow> i < 2 ^ 31 \<Longrightarrow> LONG_MIN \<le> i \<and> i \<le> LONG_MAX"
  by (simp add: LONG_MIN_def LONG_MAX_def)

lemma length_show_int:
  assumes "- (2 ^ 31) \<le> i" and "i < 2 ^ 31"
  shows "length (show_int i) \<le> 11"
proof -
  have "nat \<bar>i\<bar> < 10 ^ 10" using assms by simp
  from length_show_nat [OF _ this] have "length (show_nat (nat \<bar>i\<bar>)) \<le> 10" by simp
  then show ?thesis by (auto simp: show_int_def abs_if)
qed

lemma show_int_no_NUL: "NUL \<notin> set (show_int i)"
proof -
  have "NUL \<notin> set (show_nat n)" for n
    using is_dec_show_nat [of n] is_digit_10_neq(1) by (auto simp: list_all_iff)
  then show ?thesis by (simp add: show_int_def)
qed

lemma c_str_append_NUL_free:
  "NUL \<notin> set a \<Longrightarrow> c_str (a @ b) = a @ c_str b"
  by (induction a) (auto simp: c_str_def)
subsection \<open>Object references in the stream\<close>

lemma c_str_show_int: "c_str (show_int i @ NL # r) = show_int i @ NL # c_str r"
  using c_str_append_NUL_free [OF show_int_no_NUL, of i "NL # r"]
  by (simp add: c_str_def)

lemma read_int_show_int:
  assumes "- (2 ^ 31) \<le> i" and "i < 2 ^ 31"
  shows "read_int (pre @ show_int i @ NL # post) (length pre)
           = Inr (i, length pre + length (show_int i) + 1)"
proof -
  from int32_in_long [OF assms] have r: "LONG_MIN \<le> i" "i \<le> LONG_MAX" by simp_all
  show ?thesis
    by (simp add: read_int_def c_str_at_def c_str_show_int strtol_show_int [OF r]
        long_to_int_id [OF assms])
qed

lemma pickle_body_text:
  assumes "- (2 ^ 31) \<le> LookupBodyIndex e b" and "LookupBodyIndex e b < 2 ^ 31"
    and "Lookup e i = Some (IsaBody b)"
  shows "pickle_val e l (LUserdata i) out key
           = Returned l (out @ ''uBody'' @ [NL] @ show_int (LookupBodyIndex e b) @ [NL])"
  using assms length_show_int [OF assms(1,2)]
  by (simp add: pickle_userdata_def Let_def snprintf_256_def)

lemma pickle_sbodypath_text:
  assumes "- (2 ^ 31) \<le> sectorX p" "sectorX p < 2 ^ 31"
    and "- (2 ^ 31) \<le> sectorY p" "sectorY p < 2 ^ 31"
    and "- (2 ^ 31) \<le> systemNum p" "systemNum p < 2 ^ 31"
    and "- (2 ^ 31) \<le> sbodyId p" "sbodyId p < 2 ^ 31"
    and "Lookup e i = Some (IsaSBodyPath p)"
  shows "pickle_val e l (LUserdata i) out key
           = Returned l (out @ ''uSBodyPath'' @ [NL] @ show_int (sectorX p) @ [NL]
               @ show_int (sectorY p) @ [NL] @ show_int (systemNum p) @ [NL]
               @ show_int (sbodyId p) @ [NL])"
  using assms(9) length_show_int [OF assms(1,2)] length_show_int [OF assms(3,4)]
    length_show_int [OF assms(5,6)] length_show_int [OF assms(7,8)]
  by (simp add: pickle_userdata_def Let_def snprintf_256_def)

lemma unpickle_body_text:
  assumes "- (2 ^ 31) \<le> n" and "n < 2 ^ 31" and m: "0 < m"
    and buf_def: "buf = pre @ ''uBody'' @ [NL] @ show_int n @ NL # post"
  shows "unpickle_n m e buf l (length pre)
           = Some (case LookupBody e n of
                     None \<Rightarrow> Raised NullPointerDereference l
                   | Some b \<Rightarrow>
                       (case push_body e l b of
                          Raised err l' \<Rightarrow> Raised err l'
                        | Returned l' u \<Rightarrow>
                            Returned l' (length pre + 6 + length (show_int n) + 1)))"
proof -
  from m obtain k where k: "m = Suc k" by (cases m) auto
  from int32_in_long [OF assms(1,2)] have r: "LONG_MIN \<le> n" "n \<le> LONG_MAX" by simp_all
  have pk: "peek buf (length pre) = Some (CHR ''u'')"
    by (simp add: peek_def buf_def nth_append)
  have cs: "c_str_at buf (Suc (length pre)) = Some (''Body'' @ NL # c_str (show_int n @ NL # post))"
    by (simp add: c_str_at_def buf_def c_str_def)
  have cs2: "c_str_at buf (length pre + 6) = Some (show_int n @ NL # c_str post)"
    by (simp add: c_str_at_def buf_def c_str_show_int)
  have ub: "unpickle_body e buf l (length pre + 6)
              = (case LookupBody e n of
                     None \<Rightarrow> Raised NullPointerDereference l
                   | Some b \<Rightarrow>
                       (case push_body e l b of
                          Raised err l' \<Rightarrow> Raised err l'
                        | Returned l' u \<Rightarrow>
                            Returned l' (length pre + 6 + length (show_int n) + 1)))"
    by (simp add: unpickle_body_def cs2 strtol_show_int [OF r] long_to_int_id [OF assms(1,2)] Let_def
        split: option.split outcome.split)
  have "unpickle_userdata e buf l (Suc (length pre)) = unpickle_body e buf l (length pre + 6)"
    using cs by (simp add: unpickle_userdata_def Let_def eval_nat_numeral add.assoc)
  with pk ub have "unpickle_n (Suc k) e buf l (length pre) = Some (case LookupBody e n of
                     None \<Rightarrow> Raised NullPointerDereference l
                   | Some b \<Rightarrow>
                       (case push_body e l b of
                          Raised err l' \<Rightarrow> Raised err l'
                        | Returned l' u \<Rightarrow>
                            Returned l' (length pre + 6 + length (show_int n) + 1)))"
    by (simp add: Let_def)
  then show ?thesis by (simp only: k)
qed

lemma unpickle_sbodypath_text:
  assumes "- (2 ^ 31) \<le> x" "x < 2 ^ 31" and "- (2 ^ 31) \<le> y" "y < 2 ^ 31"
    and "- (2 ^ 31) \<le> s" "s < 2 ^ 31" and "- (2 ^ 31) \<le> b" "b < 2 ^ 31"
    and m: "0 < m"
    and buf_def: "buf = pre @ ''uSBodyPath'' @ [NL] @ show_int x @ [NL] @ show_int y @ [NL]
              @ show_int s @ [NL] @ show_int b @ NL # post"
  shows "unpickle_n m e buf l (length pre)
         = Some (Returned
             (push (LUserdata (PushToLuaGC e
                \<lparr>sectorX = x, sectorY = y, systemNum = s, sbodyId = b\<rparr>)) l)
             (length pre + 11 + length (show_int x) + 1 + length (show_int y) + 1
                + length (show_int s) + 1 + length (show_int b) + 1))"
proof -
  from m obtain k where k: "m = Suc k" by (cases m) auto
  define p1 where "p1 = length pre + 11"
  define p2 where "p2 = p1 + length (show_int x) + 1"
  define p3 where "p3 = p2 + length (show_int y) + 1"
  define p4 where "p4 = p3 + length (show_int s) + 1"
  have pk: "peek buf (length pre) = Some (CHR ''u'')"
    by (simp add: peek_def buf_def nth_append)
  have cs: "c_str_at buf (Suc (length pre))
      = Some (''SBodyPath'' @ NL # c_str (show_int x @ [NL] @ show_int y @ [NL]
              @ show_int s @ [NL] @ show_int b @ NL # post))"
    by (simp add: c_str_at_def buf_def c_str_def)
  have r1: "read_int buf p1 = Inr (x, p2)"
    using read_int_show_int [OF assms(1,2), of "pre @ ''uSBodyPath'' @ [NL]"
        "show_int y @ [NL] @ show_int s @ [NL] @ show_int b @ NL # post"]
    by (simp add: buf_def p1_def p2_def eval_nat_numeral add.assoc)
  have r2: "read_int buf p2 = Inr (y, p3)"
    using read_int_show_int [OF assms(3,4), of "pre @ ''uSBodyPath'' @ [NL] @ show_int x @ [NL]"
        "show_int s @ [NL] @ show_int b @ NL # post"]
    by (simp add: buf_def p1_def p2_def p3_def eval_nat_numeral add.assoc)
  have r3: "read_int buf p3 = Inr (s, p4)"
    using read_int_show_int [OF assms(5,6),
        of "pre @ ''uSBodyPath'' @ [NL] @ show_int x @ [NL] @ show_int y @ [NL]"
        "show_int b @ NL # post"]
    by (simp add: buf_def p1_def p2_def p3_def p4_def eval_nat_numeral add.assoc)
  have r4: "read_int buf p4 = Inr (b, p4 + length (show_int b) + 1)"
    using read_int_show_int [OF assms(7,8),
        of "pre @ ''uSBodyPath'' @ [NL] @ show_int x @ [NL] @ show_int y @ [NL] @ show_int s @ [NL]"
        post]
    by (simp add: buf_def p1_def p2_def p3_def p4_def eval_nat_numeral add.assoc)
  have us: "unpickle_sbodypath e buf l p1
      = Returned (push (LUserdata (PushToLuaGC e
                \<lparr>sectorX = x, sectorY = y, systemNum = s, sbodyId = b\<rparr>)) l)
             (p4 + length (show_int b) + 1)"
    by (simp add: unpickle_sbodypath_def r1 r2 r3 r4)
  have "unpickle_userdata e buf l (Suc (length pre)) = unpickle_sbodypath e buf l p1"
    using cs by (simp add: unpickle_userdata_def Let_def p1_def eval_nat_numeral add.assoc)
  with pk us have "unpickle_n (Suc k) e buf l (length pre)
         = Some (Returned
             (push (LUserdata (PushToLuaGC e
                \<lparr>sectorX = x, sectorY = y, systemNum = s, sbodyId = b\<rparr>)) l)
             (p4 + length (show_int b) + 1))"
    by (simp add: Let_def)
  then show ?thesis by (simp add: k p1_def p2_def p3_def p4_def add.assoc del: unpickle_n.simps)
qed
subsection \<open>Reading back the text of a number\<close>

lemma lower_digit: "is_digit 10 c \<Longrightarrow> lower c = c"
  using is_digit_10_range [of c] by (auto simp: lower_def Let_def)

lemma lower_sep: "lower NL = NL" "lower (CHR ''.'') = CHR ''.''"
  by (simp_all add: lower_def Let_def)

lemma not_special_form:
  assumes "is_digit 10 d" and "c = NL \<or> c = CHR ''.'' \<or> is_digit 10 c"
  shows "\<not> special_form (d # c # r)"
proof -
  note dn = is_digit_10_neq [OF assms(1)]
  have lc: "lower c \<noteq> CHR ''x''"
    using assms(2) is_digit_10_neq(6) [of c] by (auto simp: lower_sep lower_digit)
  show ?thesis
    using dn lc by (auto simp: special_form_def Let_def lower_digit [OF assms(1)])
qed

lemma not_special_form_append:
  assumes "list_all (is_digit 10) ip" and "ip \<noteq> []" and "c = NL \<or> c = CHR ''.''"
  shows "\<not> special_form (ip @ c # r)"
proof (cases ip)
  case Nil
  with assms show ?thesis by simp
next
  case (Cons d ds)
  show ?thesis
  proof (cases ds)
    case Nil
    with Cons assms not_special_form [of d c r] show ?thesis by auto
  next
    case (Cons d' ds')
    with \<open>ip = d # ds\<close> assms not_special_form [of d d' "ds' @ c # r"] show ?thesis by auto
  qed
qed

lemma digits_value_append:
  "digits_value b (xs @ ys) = digits_value b xs * b ^ length ys + digits_value b ys"
proof (induction ys rule: rev_induct)
  case Nil
  then show ?case by (simp add: digits_value_def)
next
  case (snoc y ys)
  have "digits_value b (xs @ ys @ [y]) = digits_value b (xs @ ys) * b + the (digit_val y)"
    using digits_value_snoc [of b "xs @ ys" y] by simp
  with snoc show ?case
    by (simp add: digits_value_snoc algebra_simps)
qed

lemma digits_value_zeros: "digits_value 10 (replicate k (CHR ''0'') @ s) = digits_value 10 s"
proof -
  have dz: "digit_val (CHR ''0'') = Some 0"
    by (simp add: digit_val_def Let_def)
  have z: "digits_value 10 (replicate k (CHR ''0'')) = 0"
  proof (induction k)
    case 0
    then show ?case by (simp add: digits_value_def)
  next
    case (Suc k)
    have "replicate (Suc k) (CHR ''0'') = replicate k (CHR ''0'') @ [CHR ''0'']"
      by (simp add: replicate_append_same)
    then show ?case using Suc by (simp only: digits_value_snoc dz) simp
  qed
  show ?thesis by (simp add: digits_value_append z)
qed

lemma is_digit_zero: "is_digit 10 (CHR ''0'')"
  by (simp add: is_digit_def digit_val_def Let_def)

lemma scan_sign_digit: "is_digit 10 d \<Longrightarrow> scan_sign (d # r) = (False, 0)"
  using is_digit_10_neq(3,4) [of d] by (simp add: scan_sign_def)

lemma scan_sign_minus: "scan_sign (CHR ''-'' # r) = (True, 1)"
  by (simp add: scan_sign_def)

lemma scan_exponent_NL: "scan_exponent (NL # r) = (0, 0)"
  by (simp add: scan_exponent_def Let_def split: prod.split)

lemma strtod_mantissa:
  assumes ws: "takeWhile isspace s = []" "dropWhile isspace s = s"
    and sg: "scan_sign s = (neg, sg)"
    and ip: "takeWhile (is_digit 10) (drop sg s) = ip"
    and dot: "drop (length ip) (drop sg s) = dt @ fp @ NL # r" "dt = [] \<or> dt = ''.''"
      "dt = [] \<longrightarrow> fp = []"
    and fp: "list_all (is_digit 10) fp"
    and nsf: "\<not> special_form (drop sg s)" and ne: "ip \<noteq> []"
  shows "strtod s = Converted ((if neg then - 1 else 1) * (of_nat (digits_value 10 (ip @ fp))
                                  / 10 ^ length fp))
                      (sg + length ip + length dt + length fp)"
proof -
  have tw2: "takeWhile (is_digit 10) (fp @ NL # r) = fp"
    using is_dec_takeWhile [OF fp not_digit_sep(1), of r] by simp
  have nd: "\<not> is_digit 10 NL" by (rule not_digit_sep(1))
  have nl: "NL \<noteq> CHR ''.''" by simp
  from dot(2) show ?thesis
  proof
    assume d0: "dt = []"
    with dot(3) have f0: "fp = []" by simp
    show ?thesis
      unfolding strtod_def Let_def ws sg prod.case ip dot(1)
      using nsf ne nd nl by (simp add: d0 f0 scan_exponent_NL)
  next
    assume d1: "dt = ''.''"
    show ?thesis
      unfolding strtod_def Let_def ws sg prod.case ip dot(1)
      using nsf ne nd nl tw2 by (simp add: d1 scan_exponent_NL)
  qed
qed

text \<open>The text \<open>ip\<close> or \<open>ip.fp\<close> before a newline, with an optional minus sign.\<close>

lemma strtod_integer_text:
  assumes ip: "list_all (is_digit 10) ip" and ne: "ip \<noteq> []"
  shows "strtod (ip @ NL # r) = Converted (of_nat (digits_value 10 ip)) (length ip)"
proof -
  obtain d ds where i: "ip = d # ds" using ne by (cases ip) auto
  from ip i have d: "is_digit 10 d" by simp
  note dn = is_digit_10_neq [OF d]
  have ws: "takeWhile isspace (ip @ NL # r) = []" "dropWhile isspace (ip @ NL # r) = ip @ NL # r"
    using dn(12) by (simp_all add: i)
  have sg: "scan_sign (ip @ NL # r) = (False, 0)"
    using scan_sign_digit [OF d] by (simp add: i)
  have tw: "takeWhile (is_digit 10) (drop 0 (ip @ NL # r)) = ip"
    using is_dec_takeWhile [OF ip not_digit_sep(1), of r] by simp
  have nsf: "\<not> special_form (drop 0 (ip @ NL # r))"
    using not_special_form_append [OF ip ne, of NL r] by simp
  have dr: "drop (length ip) (drop 0 (ip @ NL # r)) = [] @ [] @ NL # r" by simp
  from strtod_mantissa [OF ws sg tw dr _ _ _ nsf ne] show ?thesis by simp
qed
lemma strtod_fraction_text:
  assumes ip: "list_all (is_digit 10) ip" and ne: "ip \<noteq> []"
    and fp: "list_all (is_digit 10) fp"
  shows "strtod (ip @ CHR ''.'' # fp @ NL # r)
           = Converted (of_nat (digits_value 10 (ip @ fp)) / 10 ^ length fp)
               (length ip + 1 + length fp)"
    and "strtod (CHR ''-'' # ip @ CHR ''.'' # fp @ NL # r)
           = Converted (- (of_nat (digits_value 10 (ip @ fp)) / 10 ^ length fp))
               (1 + length ip + 1 + length fp)"
proof -
  obtain d ds where i: "ip = d # ds" using ne by (cases ip) auto
  from ip i have d: "is_digit 10 d" by simp
  note dn = is_digit_10_neq [OF d]
  define t where "t = ip @ CHR ''.'' # fp @ NL # r"
  have ws: "takeWhile isspace t = []" "dropWhile isspace t = t"
    using dn(12) by (simp_all add: i t_def)
  have sg: "scan_sign t = (False, 0)"
    using scan_sign_digit [OF d] by (simp add: i t_def)
  have tw: "takeWhile (is_digit 10) t = ip"
    using is_dec_takeWhile [OF ip not_digit_sep(3), of "fp @ NL # r"] by (simp add: t_def)
  have nsf: "\<not> special_form t"
    using not_special_form_append [OF ip ne, of "CHR ''.''" "fp @ NL # r"] by (simp add: t_def)
  have dr: "drop (length ip) t = ''.'' @ fp @ NL # r" by (simp add: t_def)
  have A: "strtod t = Converted (of_nat (digits_value 10 (ip @ fp)) / 10 ^ length fp)
               (length ip + 1 + length fp)"
    using strtod_mantissa [of t False 0 ip "''.''" fp r] ws sg tw nsf dr fp ne by simp
  define u where "u = CHR ''-'' # t"
  have sp: "\<not> isspace (CHR ''-'')" by (simp add: isspace_def)
  have wsu: "takeWhile isspace u = []" "dropWhile isspace u = u"
    using sp by (simp_all add: u_def)
  have sgu: "scan_sign u = (True, 1)" by (simp add: u_def scan_sign_minus)
  have B: "strtod u = Converted (- (of_nat (digits_value 10 (ip @ fp)) / 10 ^ length fp))
               (1 + length ip + 1 + length fp)"
    using strtod_mantissa [of u True 1 ip "''.''" fp r] wsu sgu tw nsf dr fp ne
    by (simp add: u_def)
  from A show "strtod (ip @ CHR ''.'' # fp @ NL # r)
           = Converted (of_nat (digits_value 10 (ip @ fp)) / 10 ^ length fp)
               (length ip + 1 + length fp)"
    by (simp add: t_def)
  from B show "strtod (CHR ''-'' # ip @ CHR ''.'' # fp @ NL # r)
           = Converted (- (of_nat (digits_value 10 (ip @ fp)) / 10 ^ length fp))
               (1 + length ip + 1 + length fp)"
    by (simp add: u_def t_def)
qed

lemma round_half_even_of_nat: "round_half_even (of_nat n) = n"
  by (simp add: round_half_even_def Let_def)

lemma show_f_text:
  "\<exists>ip fp. list_all (is_digit 10) ip \<and> ip \<noteq> [] \<and> list_all (is_digit 10) fp
           \<and> length fp = 6
           \<and> show_f x = (if x < 0 then ''-'' else []) @ ip @ CHR ''.'' # fp
           \<and> (of_nat (digits_value 10 (ip @ fp)) :: rat) / 10 ^ length fp
               = of_nat (round_half_even (\<bar>x\<bar> * 1000000)) / 1000000"
proof -
  define R where "R = round_half_even (\<bar>x\<bar> * 1000000)"
  define ip where "ip = show_nat (R div 1000000)"
  define fr where "fr = show_nat (R mod 1000000)"
  define fp where "fp = replicate (6 - length fr) (CHR ''0'') @ fr"
  have lfr: "length fr \<le> 6"
    unfolding fr_def by (rule length_show_nat) simp_all
  have lfp: "length fp = 6" using lfr by (simp add: fp_def)
  have dip: "list_all (is_digit 10) ip" by (simp add: ip_def is_dec_show_nat)
  have dfp: "list_all (is_digit 10) fp"
    using is_dec_show_nat [of "R mod 1000000"]
    by (auto simp: fp_def fr_def is_digit_zero list_all_iff)
  have sf: "show_f x = (if x < 0 then ''-'' else []) @ ip @ CHR ''.'' # fp"
    by (simp add: show_f_def R_def [symmetric] Let_def ip_def fp_def fr_def)
  have "digits_value 10 (ip @ fp) = (R div 1000000) * 10 ^ 6 + R mod 1000000"
    by (simp add: digits_value_append lfp)
       (simp add: ip_def fp_def fr_def digits_value_zeros digits_value_show_nat)
  then have dv: "digits_value 10 (ip @ fp) = R" by simp
  with lfp have val: "(of_nat (digits_value 10 (ip @ fp)) :: rat) / 10 ^ length fp
      = of_nat (round_half_even (\<bar>x\<bar> * 1000000)) / 1000000"
    by (simp add: R_def)
  from dip dfp lfp sf val show_nat_nonempty [of "R div 1000000"] show ?thesis
    unfolding ip_def [symmetric] by blast
qed

lemma strtod_show_f:
  "strtod (show_f x @ NL # r) = Converted (text_value x) (length (show_f x))"
proof -
  from show_f_text [of x] obtain ip fp where
    ip: "list_all (is_digit 10) ip" "ip \<noteq> []" and fp: "list_all (is_digit 10) fp"
    and sf: "show_f x = (if x < 0 then ''-'' else []) @ ip @ CHR ''.'' # fp"
    and val: "(of_nat (digits_value 10 (ip @ fp)) :: rat) / 10 ^ length fp
                = of_nat (round_half_even (\<bar>x\<bar> * 1000000)) / 1000000"
    by blast
  show ?thesis
  proof (cases "x < 0")
    case True
    with strtod_fraction_text(2) [OF ip fp, of r] sf val show ?thesis
      by (simp add: text_value_def Let_def)
  next
    case False
    with strtod_fraction_text(1) [OF ip fp, of r] sf val show ?thesis
      by (simp add: text_value_def Let_def)
  qed
qed

lemma text_value_exact:
  assumes "of_int \<lfloor>x * 1000000\<rfloor> = x * 1000000"
  shows "text_value x = x"
proof -
  from assms [symmetric] obtain n :: int where n: "x * 1000000 = of_int n" ..
  define R where "R = nat \<bar>n\<bar>"
  have "\<bar>x\<bar> * 1000000 = \<bar>x * 1000000\<bar>" by (simp add: abs_mult)
  also have "\<dots> = \<bar>of_int n\<bar>" by (simp only: n)
  also have "\<dots> = of_nat R" by (simp add: R_def)
  finally have R: "\<bar>x\<bar> * 1000000 = of_nat R" .
  have R': "(of_nat R :: rat) = \<bar>x\<bar> * 1000000" using R by simp
  show ?thesis
    unfolding text_value_def Let_def R round_half_even_of_nat
    by (simp add: R' abs_if)
qed

lemma strtod_show_nat:
  "strtod (show_nat n @ NL # r) = Converted (of_nat n) (length (show_nat n))"
  using strtod_integer_text [OF is_dec_show_nat show_nat_nonempty, of n r]
  by (simp add: digits_value_show_nat)

lemma show_f_no_NUL: "NUL \<notin> set (show_f x)"
proof -
  from show_f_text [of x] obtain ip fp where
    ip: "list_all (is_digit 10) ip" and fp: "list_all (is_digit 10) fp"
    and sf: "show_f x = (if x < 0 then ''-'' else []) @ ip @ CHR ''.'' # fp"
    by blast
  have "NUL \<notin> set s" if "list_all (is_digit 10) s" for s
    using that is_digit_10_neq(1) by (auto simp: list_all_iff)
  with ip fp sf show ?thesis by auto
qed

lemma show_nat_no_NUL: "NUL \<notin> set (show_nat n)"
  using is_dec_show_nat [of n] is_digit_10_neq(1) by (auto simp: list_all_iff)
subsection \<open>Writing a value and reading it back\<close>

lemma show_int_bits: "show_int 1 = ''1''" "show_int 0 = ''0''"
  by code_simp+

lemma show_int_nat: "show_int (int n) = show_nat n"
  by (simp add: show_int_def)

lemma c_str_NUL_free: "NUL \<notin> set s \<Longrightarrow> c_str s = s"
  using c_str_append_NUL_free [of s "[]"] by (simp add: c_str_def)

lemma length_show_nat_int: "n < 2 ^ 31 \<Longrightarrow> length (show_nat n) \<le> 10"
proof -
  assume "n < 2 ^ 31"
  then have "n < 10 ^ 10" by simp
  from length_show_nat [OF _ this] show ?thesis by simp
qed

lemma c_str_no_NUL: "NUL \<notin> set (c_str s)"
  by (auto simp: c_str_def dest: set_takeWhileD)

lemma c_str_idem: "c_str (c_str s) = c_str s"
  by (rule c_str_NUL_free) (rule c_str_no_NUL)

lemma pickle_userdata_readable:
  assumes "readable e (LUserdata i)"
  shows "pickle_val e l (LUserdata i) out key = Returned l (out @ pickled_text e (LUserdata i))"
proof (cases "Lookup e i")
  case None
  with assms show ?thesis by simp
next
  case (Some lo)
  show ?thesis
  proof (cases lo)
    case (IsaSBodyPath p)
    with assms Some have r: "- (2 ^ 31) \<le> sectorX p" "sectorX p < 2 ^ 31"
      "- (2 ^ 31) \<le> sectorY p" "sectorY p < 2 ^ 31"
      "- (2 ^ 31) \<le> systemNum p" "systemNum p < 2 ^ 31"
      "- (2 ^ 31) \<le> sbodyId p" "sbodyId p < 2 ^ 31"
      by (simp_all add: int32_def)
    from Some IsaSBodyPath have lk: "Lookup e i = Some (IsaSBodyPath p)" by simp
    from pickle_sbodypath_text [OF r lk, of l out key] lk show ?thesis by simp
  next
    case (IsaBody b)
    with assms Some have r: "- (2 ^ 31) \<le> LookupBodyIndex e b" "LookupBodyIndex e b < 2 ^ 31"
      by (simp_all add: int32_def)
    from Some IsaBody have lk: "Lookup e i = Some (IsaBody b)" by simp
    from pickle_body_text [OF r lk, of l out key] lk show ?thesis by simp
  next
    case (IsaOther c)
    with assms Some show ?thesis by simp
  qed
qed

lemma pickle_readable:
  "readable e v \<Longrightarrow> pickle_val e l v out key = Returned l (out @ pickled_text e v)"
  "readable_entries e es \<Longrightarrow>
     pickle_entries e l es out key = Returned (lua_pop l 1) (out @ pickled_entries e es)"
proof (induction e l v out key and e l es out key rule: pickle_val_pickle_entries.induct)
  case (2 e l x out key)
  then have "length (show_f x) \<le> 253" by simp
  then show ?case by (simp add: snprintf_256_def)
next
  case (3 e l b out key)
  then show ?case by (simp add: snprintf_256_def show_int_bits)
next
  case (4 e l s out key)
  then have len: "length (c_str s) < 2 ^ 31" by simp
  from length_show_nat_int [OF len] show ?case
    by (simp add: Let_def c_str_idem strlen_def show_int_nat snprintf_256_def pop_push)
next
  case (5 e l t out key)
  from "5.prems" have pe: "readable_entries e (lua_next_order e t)" by simp
  from "5.IH" [OF refl refl refl pe] show ?case
    by (simp add: Let_def lua_pushnil_def pop_push)
next
  case (6 e l i out key)
  then show ?case by (rule pickle_userdata_readable)
next
  case (11 e l k v es out key)
  define l1 where "l1 = push v (push k (lua_pop l 1))"
  from "11.prems" have pk: "readable e k" and pv: "readable e v" and pes: "readable_entries e es"
    by simp_all
  show ?case
  proof (cases "key = None")
    case False
    have a: "pickle_val e l1 k out key = Returned l1 (out @ pickled_text e k)"
      by (rule "11.IH"(1) [OF l1_def False pk])
    have b: "pickle_val e l1 v (out @ pickled_text e k) key
               = Returned l1 (out @ pickled_text e k @ pickled_text e v)"
      using "11.IH"(2) [OF l1_def False a pv] by simp
    have c: "pickle_entries e (lua_pop l1 1) es (out @ pickled_text e k @ pickled_text e v) key
               = Returned (lua_pop (lua_pop l1 1) 1)
                   (out @ pickled_text e k @ pickled_text e v @ pickled_entries e es)"
      using "11.IH"(3) [OF l1_def False a b pes] by simp
    from False a b c show ?thesis
      by (simp add: Let_def l1_def [symmetric]) (simp add: l1_def lua_pop_def push_def)
  next
    case True
    define l2 where "l2 = push (tostring_slot e k) l1"
    define k' where "k' = lua_tostring e k"
    have nn: "\<not> key \<noteq> None" using True by simp
    have a: "pickle_val e l2 k out k' = Returned l2 (out @ pickled_text e k)"
      by (rule "11.IH"(4) [OF l1_def nn l2_def k'_def pk])
    have b: "pickle_val e l2 v (out @ pickled_text e k) k'
               = Returned l2 (out @ pickled_text e k @ pickled_text e v)"
      using "11.IH"(5) [OF l1_def nn l2_def k'_def a pv] by simp
    have c: "pickle_entries e (lua_pop (lua_pop l2 1) 1) es
               (out @ pickled_text e k @ pickled_text e v) key
               = Returned (lua_pop (lua_pop (lua_pop l2 1) 1) 1)
                   (out @ pickled_text e k @ pickled_text e v @ pickled_entries e es)"
      using "11.IH"(6) [OF l1_def nn l2_def k'_def a b pes] by simp
    from True a b c show ?thesis
      by (simp add: Let_def l1_def [symmetric] l2_def [symmetric] k'_def [symmetric])
         (simp add: l1_def l2_def lua_pop_def push_def)
  qed
qed simp_all
lemma peek_at: "peek (pre @ c # post) (length pre) = Some c"
  by (simp add: peek_def nth_append)

lemma c_str_at_append:
  "c_str_at (pre @ s) (length pre) = Some (c_str s)"
  by (simp add: c_str_at_def)

lemma unpickle_number_text:
  assumes m: "0 < m"
  shows "unpickle_n m e (pre @ CHR ''f'' # show_f x @ NL # post) l (length pre)
           = Some (Returned (push (LNumber (text_value x)) l)
                     (length pre + (length (show_f x) + 2)))"
proof -
  from m obtain k where k: "m = Suc k" by (cases m) auto
  define buf where "buf = pre @ CHR ''f'' # show_f x @ NL # post"
  have pk: "peek buf (length pre) = Some (CHR ''f'')" by (simp add: buf_def peek_at)
  have "c_str_at ((pre @ ''f'') @ show_f x @ NL # post) (length (pre @ ''f''))
          = Some (c_str (show_f x @ NL # post))"
    by (rule c_str_at_append)
  then have cs: "c_str_at buf (length pre + 1) = Some (show_f x @ NL # c_str post)"
    using c_str_append_NUL_free [OF show_f_no_NUL, of x "NL # post"]
    by (simp add: buf_def c_str_def)
  have "unpickle_number buf l (length pre + 1)
          = Returned (push (LNumber (text_value x)) l) (length pre + (length (show_f x) + 2))"
    using cs by (simp add: unpickle_number_def strtod_show_f lua_pushnumber_def)
  with pk show ?thesis
    unfolding k buf_def [symmetric] by (simp add: Let_def)
qed

lemma unpickle_boolean_text:
  assumes m: "0 < m"
  shows "unpickle_n m e (pre @ (if b then ''b1'' else ''b0'') @ post) l (length pre)
           = Some (Returned (push (LBoolean b) l) (length pre + 2))"
proof -
  from m obtain k where k: "m = Suc k" by (cases m) auto
  define c where "c = (if b then CHR ''1'' else CHR ''0'')"
  define buf where "buf = pre @ CHR ''b'' # c # post"
  have pk: "peek buf (length pre) = Some (CHR ''b'')" by (simp add: buf_def peek_at)
  have "peek ((pre @ ''b'') @ c # post) (length (pre @ ''b'')) = Some c" by (rule peek_at)
  then have pk2: "peek buf (length pre + 1) = Some c" by (simp add: buf_def)
  have "unpickle_boolean buf l (length pre + 1) = Returned (push (LBoolean b) l) (length pre + 2)"
    using pk2 by (simp add: unpickle_boolean_def lua_pushboolean_def c_def)
  with pk have "unpickle_n (Suc k) e buf l (length pre)
                  = Some (Returned (push (LBoolean b) l) (length pre + 2))"
    by (simp add: Let_def)
  moreover have "pre @ (if b then ''b1'' else ''b0'') @ post = buf"
    by (simp add: buf_def c_def)
  ultimately show ?thesis by (simp only: k)
qed

lemma unpickle_string_text:
  assumes n: "NUL \<notin> set s" and m: "0 < m"
  shows "unpickle_n m e (pre @ CHR ''s'' # show_nat (length s) @ NL # s @ post) l (length pre)
           = Some (Returned (push (LString s) l)
                     (length pre + (length (show_nat (length s)) + 2 + length s)))"
proof -
  from m obtain k where k: "m = Suc k" by (cases m) auto
  define d where "d = show_nat (length s)"
  define buf where "buf = pre @ CHR ''s'' # d @ NL # s @ post"
  have pk: "peek buf (length pre) = Some (CHR ''s'')" by (simp add: buf_def peek_at)
  have "c_str_at ((pre @ ''s'') @ d @ NL # s @ post) (length (pre @ ''s''))
          = Some (c_str (d @ NL # s @ post))"
    by (rule c_str_at_append)
  then have cs: "c_str_at buf (length pre + 1) = Some (d @ NL # c_str (s @ post))"
    using c_str_append_NUL_free [OF show_nat_no_NUL, of "length s" "NL # s @ post"]
    by (simp add: buf_def c_str_def d_def)
  have sd: "strtod (d @ NL # c_str (s @ post)) = Converted (of_nat (length s)) (length d)"
    unfolding d_def by (rule strtod_show_nat)
  have di: "double_to_int (of_nat (length s)) = int (length s)"
    by (simp add: double_to_int_def)
  have dr: "drop (length pre + 1 + length d + 1) (buf @ [NUL]) = s @ post @ [NUL]"
    by (simp add: buf_def)
  have lb: "length buf = length pre + 1 + length d + 1 + length s + length post"
    by (simp add: buf_def)
  have "unpickle_string buf l (length pre + 1)
          = Returned (push (LString s) l) (length pre + (length d + 2 + length s))"
    using dr cs by (simp add: unpickle_string_def sd di lua_pushlstring_def Let_def lb)
  with pk show ?thesis
    unfolding k d_def [symmetric] buf_def [symmetric] by (simp add: Let_def)
qed
lemma readable_text_hd:
  "readable e k \<Longrightarrow> \<exists>c r. pickled_text e k = c # r \<and> c \<noteq> CHR ''n''"
  by (cases k) (auto split: option.splits LuaObjectBase.splits)

lemma readable_not_nil: "readable e v \<Longrightarrow> read_back e v \<noteq> LNil"
  by (cases v) (auto split: option.splits LuaObjectBase.splits)

lemma exact_read_back: "exact k \<Longrightarrow> read_back e k = k"
  by (cases k) (simp_all add: text_value_exact c_str_NUL_free)

lemma update_entry_append:
  "\<forall>p \<in> set acc. \<not> same_key (fst p) k \<Longrightarrow> update_entry k v acc = acc @ [(k, v)]"
  by (induction acc) auto

lemma table_set_append:
  "\<forall>p \<in> set acc. \<not> same_key (fst p) k \<Longrightarrow> v \<noteq> LNil \<Longrightarrow> table_set acc k v = acc @ [(k, v)]"
  by (simp add: table_set_def update_entry_append)

lemma rawset_push:
  "stack l = LTable acc # rest \<Longrightarrow> k \<noteq> LNil \<Longrightarrow>
     lua_rawset_3 (push v (push k l)) = Some (l\<lparr>stack := LTable (table_set acc k v) # rest\<rparr>)"
  by (simp add: lua_rawset_3_def push_def)

lemma keys_apart_next:
  assumes "keys_apart (map fst acc @ k # ks)"
  shows "\<forall>p \<in> set acc. \<not> same_key (fst p) k"
    and "keys_apart (map fst (acc @ [(k, v)]) @ ks)"
  using assms by (auto simp: keys_apart_def sorted_wrt_append)

lemma push_body_class:
  "class_name (GetType e b) = Some c \<Longrightarrow>
     push_body e l b = Returned (push (LUserdata (PushToLua e c b)) l) ()"
  by (cases "GetType e b") (auto simp: push_body_def)

lemma unpickle_userdata_readable:
  assumes r: "readable e (LUserdata i)" and m: "0 < m"
  shows "unpickle_n m e (pre @ pickled_text e (LUserdata i) @ post) l (length pre)
        = Some (Returned (push (read_back e (LUserdata i)) l)
                  (length pre + length (pickled_text e (LUserdata i))))"
proof (cases "Lookup e i")
  case None
  with r show ?thesis by simp
next
  case (Some lo)
  show ?thesis
  proof (cases lo)
    case (IsaSBodyPath p)
    with r Some have b: "- (2 ^ 31) \<le> sectorX p" "sectorX p < 2 ^ 31"
      "- (2 ^ 31) \<le> sectorY p" "sectorY p < 2 ^ 31"
      "- (2 ^ 31) \<le> systemNum p" "systemNum p < 2 ^ 31"
      "- (2 ^ 31) \<le> sbodyId p" "sbodyId p < 2 ^ 31"
      by (simp_all add: int32_def)
    from Some IsaSBodyPath have lk: "Lookup e i = Some (IsaSBodyPath p)" by simp
    have buf: "pre @ pickled_text e (LUserdata i) @ post
        = pre @ ''uSBodyPath'' @ [NL] @ show_int (sectorX p) @ [NL] @ show_int (sectorY p) @ [NL]
              @ show_int (systemNum p) @ [NL] @ show_int (sbodyId p) @ NL # post"
      by (simp add: lk)
    have eta: "\<lparr>sectorX = sectorX p, sectorY = sectorY p, systemNum = systemNum p,
                 sbodyId = sbodyId p\<rparr> = p" by simp
    from unpickle_sbodypath_text [OF b m buf, of e l] show ?thesis
      by (simp add: lk eta add.assoc del: unpickle_n.simps)
  next
    case (IsaBody b)
    from Some IsaBody have lk: "Lookup e i = Some (IsaBody b)" by simp
    define n where "n = LookupBodyIndex e b"
    from r lk obtain b' c where
      rg: "- (2 ^ 31) \<le> n" "n < 2 ^ 31"
      and lb: "LookupBody e n = Some b'" and cn: "class_name (GetType e b') = Some c"
      by (auto simp: int32_def n_def split: option.splits)
    have buf: "pre @ pickled_text e (LUserdata i) @ post
        = pre @ ''uBody'' @ [NL] @ show_int n @ NL # post"
      by (simp add: lk n_def)
    from unpickle_body_text [OF rg m buf, of e l] show ?thesis
      by (simp add: lk lb cn push_body_class [OF cn] n_def [symmetric] add.assoc
          del: unpickle_n.simps)
  next
    case (IsaOther c)
    with r Some show ?thesis by simp
  qed
qed

lemma unpickle_readable:
  "readable e v \<longrightarrow> (\<forall>m pre post l. length (pickled_text e v) \<le> m \<longrightarrow>
      unpickle_n m e (pre @ pickled_text e v @ post) l (length pre)
        = Some (Returned (push (read_back e v) l) (length pre + length (pickled_text e v))))"
  "readable_entries e es \<longrightarrow> (\<forall>m pre post l acc rest.
      length (pickled_entries e es) < m \<longrightarrow> stack l = LTable acc # rest \<longrightarrow>
      keys_apart (map fst acc @ map fst (read_back_entries e es)) \<longrightarrow>
      table_loop_n m e (pre @ pickled_entries e es @ CHR ''n'' # post) l (length pre)
        = Some (Returned (l\<lparr>stack := LTable (acc @ read_back_entries e es) # rest\<rparr>)
                  (length pre + length (pickled_entries e es) + 1)))"
proof (induction e v and e es rule: readable_readable_entries.induct)
  case (1 e x)
  show ?case
  proof (intro impI allI)
    fix m pre post l
    assume len: "length (pickled_text e (LNumber x)) \<le> m"
    from len have m: "0 < m" by simp
    from unpickle_number_text [OF m, of e pre x post l]
    show "unpickle_n m e (pre @ pickled_text e (LNumber x) @ post) l (length pre)
        = Some (Returned (push (read_back e (LNumber x)) l)
                  (length pre + length (pickled_text e (LNumber x))))"
      by simp
  qed
next
  case (2 e b)
  show ?case
  proof (intro impI allI)
    fix m pre post l
    assume len: "length (pickled_text e (LBoolean b)) \<le> m"
    then have m: "0 < m" by (simp split: if_splits)
    from unpickle_boolean_text [OF m, of e pre b post l]
    show "unpickle_n m e (pre @ pickled_text e (LBoolean b) @ post) l (length pre)
        = Some (Returned (push (read_back e (LBoolean b)) l)
                  (length pre + length (pickled_text e (LBoolean b))))"
      by simp
  qed
next
  case (3 e s)
  show ?case
  proof (intro impI allI)
    fix m pre post l
    assume len: "length (pickled_text e (LString s)) \<le> m"
    from len have m: "0 < m" by simp
    from unpickle_string_text [OF c_str_no_NUL m, of e pre s post l]
    show "unpickle_n m e (pre @ pickled_text e (LString s) @ post) l (length pre)
        = Some (Returned (push (read_back e (LString s)) l)
                  (length pre + length (pickled_text e (LString s))))"
      by simp
  qed
next
  case (4 e t)
  show ?case
  proof (intro impI allI)
    fix m pre post l
    assume p: "readable e (LTable t)" and len: "length (pickled_text e (LTable t)) \<le> m"
    define es where "es = lua_next_order e t"
    from p have pe: "readable_entries e es"
      and apart: "keys_apart (map fst (read_back_entries e es))"
      by (simp_all add: es_def)
    from len obtain k where k: "m = Suc k" and lk: "length (pickled_entries e es) < k"
      by (cases m) (auto simp: es_def)
    define buf where "buf = pre @ pickled_text e (LTable t) @ post"
    have b1: "buf = pre @ CHR ''t'' # pickled_entries e es @ CHR ''n'' # post"
      by (simp add: buf_def es_def)
    have pk: "peek buf (length pre) = Some (CHR ''t'')" by (simp add: b1 peek_at)
    have st: "stack (lua_newtable l) = LTable [] # stack l"
      by (simp add: lua_newtable_def push_def)
    have ap: "keys_apart (map fst ([] :: (lval \<times> lval) list) @ map fst (read_back_entries e es))"
      using apart by simp
    from "4.IH" pe have
      "table_loop_n k e ((pre @ ''t'') @ pickled_entries e es @ CHR ''n'' # post)
          (lua_newtable l) (length (pre @ ''t''))
        = Some (Returned ((lua_newtable l)\<lparr>stack := LTable ([] @ read_back_entries e es) # stack l\<rparr>)
                  (length (pre @ ''t'') + length (pickled_entries e es) + 1))"
      using lk st ap unfolding es_def by blast
    then have tl: "table_loop_n k e buf (lua_newtable l) (length pre + 1)
        = Some (Returned (push (read_back e (LTable t)) l)
                  (length pre + length (pickled_text e (LTable t))))"
      by (simp add: b1 lua_newtable_def push_def es_def)
    from pk tl have "unpickle_n (Suc k) e buf l (length pre)
        = Some (Returned (push (read_back e (LTable t)) l)
                  (length pre + length (pickled_text e (LTable t))))"
      by (simp add: Let_def)
    then show "unpickle_n m e (pre @ pickled_text e (LTable t) @ post) l (length pre)
        = Some (Returned (push (read_back e (LTable t)) l)
                  (length pre + length (pickled_text e (LTable t))))"
      by (simp only: k buf_def)
  qed
next
  case (5 e i)
  show ?case
  proof (intro impI allI)
    fix m pre post l
    assume r: "readable e (LUserdata i)" and len: "length (pickled_text e (LUserdata i)) \<le> m"
    from readable_text_hd [OF r] len have m: "0 < m" by auto
    from unpickle_userdata_readable [OF r m]
    show "unpickle_n m e (pre @ pickled_text e (LUserdata i) @ post) l (length pre)
        = Some (Returned (push (read_back e (LUserdata i)) l)
                  (length pre + length (pickled_text e (LUserdata i))))" .
  qed
next
  case (7 e)
  show ?case
  proof (intro impI allI)
    fix m pre post and l :: lua_State and acc rest
    assume m: "length (pickled_entries e []) < m" and st: "stack l = LTable acc # rest"
    from m obtain k where k: "m = Suc k" by (cases m) auto
    have "l\<lparr>stack := LTable (acc @ []) # rest\<rparr> = l" using st by (cases l) simp
    then show "table_loop_n m e (pre @ pickled_entries e [] @ CHR ''n'' # post) l (length pre)
        = Some (Returned (l\<lparr>stack := LTable (acc @ read_back_entries e []) # rest\<rparr>)
                  (length pre + length (pickled_entries e []) + 1))"
      by (simp add: k peek_at)
  qed
next
  case (8 e k v es)
  show ?case
  proof (intro impI allI)
    fix m pre post and l :: lua_State and acc rest
    assume p: "readable_entries e ((k, v) # es)"
      and len: "length (pickled_entries e ((k, v) # es)) < m"
      and st: "stack l = LTable acc # rest"
      and apart: "keys_apart (map fst acc @ map fst (read_back_entries e ((k, v) # es)))"
    from p have pk: "readable e k" and pv: "readable e v" and pes: "readable_entries e es"
      by simp_all
    define rk where "rk = read_back e k"
    define rv where "rv = read_back e v"
    define tk where "tk = pickled_text e k"
    define tv where "tv = pickled_text e v"
    define te where "te = pickled_entries e es"
    from readable_text_hd [OF pk] obtain c r where c: "tk = c # r" "c \<noteq> CHR ''n''"
      unfolding tk_def by blast
    from len obtain n where n: "m = Suc n" and ln: "length tk + length tv + length te \<le> n"
      by (cases m) (auto simp: tk_def tv_def te_def)
    define buf where "buf = pre @ pickled_entries e ((k, v) # es) @ CHR ''n'' # post"
    have b1: "buf = pre @ tk @ (tv @ te @ CHR ''n'' # post)"
      by (simp add: buf_def tk_def tv_def te_def)
    have b2: "buf = (pre @ tk) @ tv @ (te @ CHR ''n'' # post)"
      by (simp add: buf_def tk_def tv_def te_def)
    have b3: "buf = (pre @ tk @ tv) @ te @ CHR ''n'' # post"
      by (simp add: buf_def tk_def tv_def te_def)
    have pkc: "peek buf (length pre) = Some c"
      by (simp add: b1 c(1) peek_at)
    have lk: "length tk \<le> n" and lv: "length tv \<le> n" using ln by simp_all
    have le: "length te < n" using ln c(1) by simp
    from "8.IH"(1) pk lk have
      a: "unpickle_n n e buf l (length pre) = Some (Returned (push rk l) (length pre + length tk))"
      unfolding b1 tk_def rk_def by blast
    from "8.IH"(2) pv lv have
      "unpickle_n n e buf (push rk l) (length (pre @ tk))
         = Some (Returned (push rv (push rk l)) (length (pre @ tk) + length tv))"
      unfolding b2 tv_def rv_def by blast
    then have b: "unpickle_n n e buf (push rk l) (length pre + length tk)
         = Some (Returned (push rv (push rk l)) (length pre + length tk + length tv))"
      by simp
    from apart have ap: "keys_apart (map fst acc @ rk # map fst (read_back_entries e es))"
      by (simp add: rk_def)
    note kn = keys_apart_next(1) [OF ap] keys_apart_next(2) [OF ap, of rv]
    have rkn: "rk \<noteq> LNil" unfolding rk_def by (rule readable_not_nil [OF pk])
    have rvn: "rv \<noteq> LNil" unfolding rv_def by (rule readable_not_nil [OF pv])
    define l3 where "l3 = l\<lparr>stack := LTable (acc @ [(rk, rv)]) # rest\<rparr>"
    have r: "lua_rawset_3 (push rv (push rk l)) = Some l3"
      using rawset_push [OF st rkn, of rv] table_set_append [OF kn(1) rvn]
      by (simp add: l3_def)
    have st3: "stack l3 = LTable (acc @ [(rk, rv)]) # rest" by (simp add: l3_def)
    from "8.IH"(3) pes le st3 kn(2) have
      "table_loop_n n e buf l3 (length (pre @ tk @ tv))
         = Some (Returned (l3\<lparr>stack := LTable ((acc @ [(rk, rv)]) @ read_back_entries e es) # rest\<rparr>)
                   (length (pre @ tk @ tv) + length te + 1))"
      unfolding b3 te_def by blast
    then have cc: "table_loop_n n e buf l3 (length pre + length tk + length tv)
         = Some (Returned (l\<lparr>stack := LTable (acc @ read_back_entries e ((k, v) # es)) # rest\<rparr>)
                   (length pre + length (pickled_entries e ((k, v) # es)) + 1))"
      by (simp add: l3_def tk_def tv_def te_def rk_def rv_def add.assoc)
    from pkc c(2) a b r cc have "table_loop_n (Suc n) e buf l (length pre)
         = Some (Returned (l\<lparr>stack := LTable (acc @ read_back_entries e ((k, v) # es)) # rest\<rparr>)
                   (length pre + length (pickled_entries e ((k, v) # es)) + 1))"
      by simp
    then show "table_loop_n m e (pre @ pickled_entries e ((k, v) # es) @ CHR ''n'' # post) l
                 (length pre)
        = Some (Returned (l\<lparr>stack := LTable (acc @ read_back_entries e ((k, v) # es)) # rest\<rparr>)
                  (length pre + length (pickled_entries e ((k, v) # es)) + 1))"
      by (simp only: n buf_def)
  qed
qed simp_all

lemma round_trip_readable:
  assumes "readable e v"
  shows "pickle_val e l v [] key = Returned l (pickled_text e v)"
    and "unpickle e (pickled_text e v) l' 0
           = Some (Returned (push (read_back e v) l') (length (pickled_text e v)))"
proof -
  show "pickle_val e l v [] key = Returned l (pickled_text e v)"
    using pickle_readable(1) [OF assms, of l "[]" key] by simp
  from unpickle_readable(1) [of e v] assms have
    "unpickle_n (2 * length (pickled_text e v) + 2) e ([] @ pickled_text e v @ []) l'
         (length ([] :: string))
       = Some (Returned (push (read_back e v) l')
                 (length ([] :: string) + length (pickled_text e v)))"
    by (metis trans_le_add1 order_refl mult_2)
  then show "unpickle e (pickled_text e v) l' 0
           = Some (Returned (push (read_back e v) l') (length (pickled_text e v)))"
    by (simp add: unpickle_def del: unpickle_n.simps pickled_text.simps)
qed

lemma readable_entries_iff:
  "readable_entries e es \<longleftrightarrow> (\<forall>p \<in> set es. readable e (fst p) \<and> readable e (snd p))"
  by (induction es) auto

lemma read_back_entries_map:
  "read_back_entries e es = map (\<lambda>p. (read_back e (fst p), read_back e (snd p))) es"
  by (induction es) auto

lemma map_fst_read_back_entries:
  "map fst (read_back_entries e es) = map (\<lambda>p. read_back e (fst p)) es"
  "map snd (read_back_entries e es) = map (\<lambda>p. read_back e (snd p)) es"
  by (induction es) auto

subsection \<open>The decoder always comes to an end\<close>

lemma read_int_advances: "read_int buf pos = Inr (v, p') \<Longrightarrow> pos < p'"
  by (auto simp: read_int_def split: option.splits prod.splits)

lemma unpickle_userdata_advances:
  "unpickle_userdata e buf l pos = Returned l' p' \<Longrightarrow> pos < p'"
  by (auto simp: unpickle_userdata_def unpickle_sbodypath_def unpickle_body_def Let_def
      split: option.splits sum.splits prod.splits if_splits outcome.splits
      dest!: read_int_advances)

lemma unpickle_scalar_advances:
  "unpickle_number buf l pos = Returned l' p' \<Longrightarrow> pos < p'"
  "unpickle_boolean buf l pos = Returned l' p' \<Longrightarrow> pos < p'"
  "unpickle_string buf l pos = Returned l' p' \<Longrightarrow> pos < p'"
  by (auto simp: unpickle_number_def unpickle_boolean_def unpickle_string_def Let_def
      split: option.splits strtod_result.splits if_splits)

lemma unpickle_n_advances:
  "unpickle_n n e buf l pos = Some (Returned l' p') \<Longrightarrow> pos < p'"
  "table_loop_n n e buf l pos = Some (Returned l'' p'') \<Longrightarrow> pos < p''"
proof (induction n e buf l pos and n e buf l pos arbitrary: l' p' and l'' p''
       rule: unpickle_n_table_loop_n.induct)
  case (1 e buf l pos)
  then show ?case by simp
next
  case (2 n e buf l pos)
  from "2.prems" obtain ty where pk: "peek buf pos = Some ty"
    by (auto split: option.splits)
  show ?case
  proof (cases "ty = CHR ''t''")
    case True
    with "2.prems" pk have
      tl: "table_loop_n n e buf (lua_newtable l) (pos + 1) = Some (Returned l' p')"
      by (simp add: Let_def)
    have fne: "ty \<noteq> CHR ''f''" "ty \<noteq> CHR ''b''" "ty \<noteq> CHR ''s''" using True by simp_all
    from "2.IH" [OF pk refl fne True tl] show ?thesis by simp
  next
    case False
    with "2.prems" pk show ?thesis
      by (auto simp: Let_def split: if_splits
          dest!: unpickle_scalar_advances unpickle_userdata_advances)
  qed
next
  case (3 e buf l pos)
  then show ?case by simp
next
  case (4 n e buf l pos)
  from "4.prems"(1) obtain c where pk: "peek buf pos = Some c"
    by (auto split: option.splits)
  show ?case
  proof (cases "c = CHR ''n''")
    case True
    with "4.prems"(1) pk show ?thesis by simp
  next
    case False
    from "4.prems"(1) pk False obtain l1 p1 l2 p2 l3 where
      a: "unpickle_n n e buf l pos = Some (Returned l1 p1)"
      and b: "unpickle_n n e buf l1 p1 = Some (Returned l2 p2)"
      and r: "lua_rawset_3 l2 = Some l3"
      and c: "table_loop_n n e buf l3 p2 = Some (Returned l'' p'')"
      by (auto split: option.splits outcome.splits)
    from "4.IH"(1) [OF pk False a] "4.IH"(2) [OF pk False a refl b]
      "4.IH"(3) [OF pk False a refl b refl r c]
    show ?thesis by simp
  qed
qed

lemma peek_Some_le: "peek buf pos = Some c \<Longrightarrow> pos \<le> length buf"
  by (auto simp: peek_def split: if_splits)

lemma peek_t_less: "peek buf pos = Some (CHR ''t'') \<Longrightarrow> pos < length buf"
  by (auto simp: peek_def split: if_splits)

lemma unpickle_n_enough:
  "2 * (length buf - pos) + 2 \<le> n \<Longrightarrow> unpickle_n n e buf l pos \<noteq> None"
  "2 * (length buf + 1 - pos) + 1 \<le> n \<Longrightarrow> table_loop_n n e buf l pos \<noteq> None"
proof (induction n e buf l pos and n e buf l pos rule: unpickle_n_table_loop_n.induct)
  case (1 e buf l pos)
  then show ?case by simp
next
  case (2 n e buf l pos)
  show ?case
  proof (cases "peek buf pos")
    case None
    then show ?thesis by simp
  next
    case (Some ty)
    show ?thesis
    proof (cases "ty = CHR ''t''")
      case True
      have fne: "ty \<noteq> CHR ''f''" "ty \<noteq> CHR ''b''" "ty \<noteq> CHR ''s''" using True by simp_all
      from Some True have "pos < length buf" by (simp add: peek_t_less)
      with "2.prems" have "2 * (length buf + 1 - (pos + 1)) + 1 \<le> n" by simp
      from "2.IH" [OF Some refl fne True this] Some True show ?thesis
        by (simp add: Let_def)
    next
      case False
      with Some show ?thesis by (simp add: Let_def)
    qed
  qed
next
  case (3 e buf l pos)
  then show ?case by simp
next
  case (4 n e buf l pos)
  show ?case
  proof (cases "peek buf pos")
    case None
    then show ?thesis by simp
  next
    case (Some c)
    note le = peek_Some_le [OF Some]
    show ?thesis
    proof (cases "c = CHR ''n''")
      case True
      with Some show ?thesis by simp
    next
      case False
      from "4.prems" le have n1: "2 * (length buf - pos) + 2 \<le> n" by simp
      from "4.IH"(1) [OF Some False n1] obtain r1 where
        r1: "unpickle_n n e buf l pos = Some r1" by auto
      show ?thesis
      proof (cases r1)
        case (Raised err l')
        with Some False r1 show ?thesis by simp
      next
        case (Returned l1 p1)
        with r1 have a: "unpickle_n n e buf l pos = Some (Returned l1 p1)" by simp
        from unpickle_n_advances(1) [OF a] have p1: "pos < p1" .
        with n1 have n2: "2 * (length buf - p1) + 2 \<le> n" by simp
        from "4.IH"(2) [OF Some False a refl n2] obtain r2 where
          r2: "unpickle_n n e buf l1 p1 = Some r2" by auto
        show ?thesis
        proof (cases r2)
          case (Raised err l')
          with Some False a r2 show ?thesis by simp
        next
          case (Returned l2 p2)
          with r2 have b: "unpickle_n n e buf l1 p1 = Some (Returned l2 p2)" by simp
          from unpickle_n_advances(1) [OF b] have p2: "p1 < p2" .
          show ?thesis
          proof (cases "lua_rawset_3 l2")
            case None
            with Some False a b show ?thesis by simp
          next
            case (Some l3)
            from "4.prems" le p1 p2 have n3: "2 * (length buf + 1 - p2) + 1 \<le> n" by simp
            from "4.IH"(3) [OF \<open>peek buf pos = Some c\<close> False a refl b refl Some n3]
              \<open>peek buf pos = Some c\<close> False a b Some
            show ?thesis by simp
          qed
        qed
      qed
    qed
  qed
qed

lemma unpickle_returns: "\<exists>r. unpickle e buf l pos = Some r"
proof -
  have "2 * (length buf - pos) + 2 \<le> 2 * length buf + 2" by simp
  from unpickle_n_enough(1) [OF this] show ?thesis
    by (simp add: unpickle_def del: unpickle_n.simps)
qed
subsection \<open>The encoder only appends\<close>

lemma pickle_userdata_appends:
  "pickle_userdata e l i out key = Returned l' out' \<Longrightarrow> \<exists>r. out' = out @ CHR ''u'' # r"
  by (auto simp: pickle_userdata_def Error_def Let_def split: option.splits LuaObjectBase.splits)

lemma pickle_appends:
  "pickle_val e l v out key = Returned l' out' \<Longrightarrow> \<exists>r. out' = out @ r"
  "pickle_entries e l es out key = Returned l'' out'' \<Longrightarrow> \<exists>r. out'' = out @ r"
proof (induction e l v out key and e l es out key arbitrary: l' out' and l'' out''
       rule: pickle_val_pickle_entries.induct)
  case (5 e l t out key)
  from "5.prems" obtain l3 o3 where
    pe: "pickle_entries e (lua_pushnil (push (LTable t) l)) (lua_next_order e t) (out @ ''t'') key = Returned l3 o3"
    and o: "out' = o3 @ ''n''"
    by (auto simp: Let_def split: outcome.splits)
  from "5.IH" [OF refl refl refl pe] o show ?case by auto
next
  case (6 e l i out key)
  from "6.prems" have "pickle_userdata e l i out key = Returned l' out'" by simp
  from pickle_userdata_appends [OF this] show ?case by auto
next
  case (11 e l k v es out key)
  define l1 where "l1 = push v (push k (lua_pop l 1))"
  show ?case
  proof (cases "key = None")
    case False
    from "11.prems" False obtain l2 o2 l3 o3 where
      a: "pickle_val e l1 k out key = Returned l2 o2"
      and b: "pickle_val e l2 v o2 key = Returned l3 o3"
      and c: "pickle_entries e (lua_pop l3 1) es o3 key = Returned l'' out''"
      by (auto simp: Let_def l1_def split: outcome.splits)
    from "11.IH"(1) [OF l1_def False a] "11.IH"(2) [OF l1_def False a b]
      "11.IH"(3) [OF l1_def False a b c]
    show ?thesis by auto
  next
    case True
    define l2 where "l2 = push (tostring_slot e k) l1"
    define k' where "k' = lua_tostring e k"
    from "11.prems" True obtain l3 o3 l4 o4 where
      a: "pickle_val e l2 k out k' = Returned l3 o3"
      and b: "pickle_val e l3 v o3 k' = Returned l4 o4"
      and c: "pickle_entries e (lua_pop (lua_pop l4 1) 1) es o4 key = Returned l'' out''"
      by (auto simp: Let_def l1_def l2_def k'_def split: outcome.splits)
    have nn: "\<not> key \<noteq> None" using True by simp
    from "11.IH"(4) [OF l1_def nn l2_def k'_def a] "11.IH"(5) [OF l1_def nn l2_def k'_def a b]
      "11.IH"(6) [OF l1_def nn l2_def k'_def a b c]
    show ?thesis by auto
  qed
qed (auto simp: Error_def Let_def)

lemma pickle_never_writes_f15x:
  "pickle_val e l v [] key \<noteq> Returned l' ''f1.5x''"
proof
  assume a: "pickle_val e l v [] key = Returned l' ''f1.5x''"
  show False
  proof (cases v)
    case (LNumber x)
    with a have t: "take 255 (CHR ''f'' # show_f x @ [NL]) = ''f1.5x''"
      by (simp add: snprintf_256_def)
    then have "length (take 255 (CHR ''f'' # show_f x @ [NL])) = 5" by simp
    then have "length (CHR ''f'' # show_f x @ [NL]) = 5" by (simp split: if_splits)
    with t have "CHR ''f'' # show_f x @ [NL] = ''f1.5x''" by simp
    then have "last (CHR ''f'' # show_f x @ [NL]) = last ''f1.5x''" by (simp only:)
    then show False by simp
  next
    case (LTable t)
    with a obtain l3 o3 where
      pe: "pickle_entries e (lua_pushnil (push (LTable t) l)) (lua_next_order e t) ''t'' key = Returned l3 o3"
      and o: "''f1.5x'' = o3 @ ''n''"
      by (auto simp: Let_def split: outcome.splits)
    from pickle_appends(2) [OF pe] o show False by auto
  next
    case (LUserdata i)
    with a have "pickle_userdata e l i [] key = Returned l' ''f1.5x''" by simp
    from pickle_userdata_appends [OF this] show False by simp
  qed (use a in \<open>auto simp: Error_def Let_def snprintf_256_def show_int_def split: if_splits\<close>)
qed
section \<open>Properties\<close>

subsection \<open>Strings with an embedded NUL\<close>

text \<open>
  C1 (round trip of values without object references, strings byte-exact including
  embedded NUL): the encoder takes the string through \<open>lua_tostring\<close>, \<open>strlen\<close> and
  \<open>out += str\<close>, which all stop at the first NUL. The three-byte string \<open>a NUL b\<close> is
  written as \<open>s1\na\<close> and read back as the one-byte string \<open>a\<close>.
\<close>

theorem pickle_truncates_string_at_NUL:
  "pickle_val demo_env demo_state (LString (''a'' @ [NUL] @ ''b'')) [] None
     = Returned demo_state (''s1'' @ [NL] @ ''a'')
   \<and> unpickle demo_env (''s1'' @ [NL] @ ''a'') demo_state 0
     = Some (Returned (push (LString ''a'') demo_state) 4)
   \<and> LString ''a'' \<noteq> LString (''a'' @ [NUL] @ ''b'')"
  by code_simp

subsection \<open>Modules that are not registered\<close>

text \<open>
  C2 (orphan preservation): \<open>Unserialize\<close> pops the decoded table when it is done and
  \<open>Serialize\<close> fills a new one from the registered callbacks only. After loading
  \<open>saved_blob\<close> the runtime state is the one before the load, and the next save holds
  \<open>ModuleA\<close> alone: the entry of \<open>ModuleB\<close> is gone.
\<close>

theorem unregistered_module_data_is_dropped:
  "Unserialize demo_env demo_state saved_blob = Some (Returned demo_state ())
   \<and> Serialize demo_env demo_state
     = Returned demo_state (''ts7'' @ [NL] @ ''ModuleAts1'' @ [NL] @ ''xb1nn'')"
  by code_simp

subsection \<open>A Body id that does not resolve\<close>

text \<open>
  C4 (an unresolvable Body id raises the corruption condition): the test after
  \<open>Serializer::LookupBody(n)\<close> compares the cursor with \<open>end\<close> again, never the returned
  pointer. With id 7, which is not live, the decoder goes on to call through the null
  pointer; it does not throw \<open>SavedGameCorruptException\<close>.
\<close>

theorem unpickle_unresolved_body_dereferences_null:
  "LookupBody demo_env 7 = None
   \<and> unpickle demo_env (''uBody'' @ [NL] @ ''7'' @ [NL]) demo_state 0
     = Some (Raised NullPointerDereference demo_state)"
  by code_simp

subsection \<open>Malformed input\<close>

text \<open>
  C5 (corruption detection on \<open>s5\nab\<close>, on an unknown tag and on an unknown userdata
  kind): the unknown tag \<open>x\<close> and the kind lines of \<open>u9\nNotAKind\n\<close> and of
  \<open>uNotAKind\n\<close> raise \<open>SavedGameCorruptException\<close>. For \<open>s5\nab\<close> the decoder asks \<open>lua_pushlstring\<close> for
  five bytes where two and the NUL are left, a read past the buffer, and throws nothing.
\<close>

theorem unpickle_short_string_overruns:
  "unpickle demo_env (''s5'' @ [NL] @ ''ab'') demo_state 0
     = Some (Raised BufferOverrun demo_state)
   \<and> unpickle demo_env ''x'' demo_state 0
     = Some (Raised SavedGameCorruptException demo_state)
   \<and> unpickle demo_env (''u9'' @ [NL] @ ''NotAKind'' @ [NL]) demo_state 0
     = Some (Raised SavedGameCorruptException demo_state)
   \<and> unpickle demo_env (''uNotAKind'' @ [NL]) demo_state 0
     = Some (Raised SavedGameCorruptException demo_state)"
  by code_simp

subsection \<open>The byte after a decimal field\<close>

text \<open>
  C10 (the byte after each decimal field is skipped unchecked): with another byte in the
  place of each newline the float payload, the string length, the Body id and the four
  Location integers are all read, and the decoder returns a value. The first of these
  texts, \<open>f1.5x\<close>, is one that \<open>pickle\<close> writes for no value.
\<close>

theorem unpickle_accepts_any_separator:
  "unpickle demo_env ''f1.5x'' demo_state 0
     = Some (Returned (push (LNumber (3 / 2)) demo_state) 5)
   \<and> unpickle demo_env ''s2xab'' demo_state 0
     = Some (Returned (push (LString ''ab'') demo_state) 5)
   \<and> unpickle demo_env (''uBody'' @ [NL] @ ''5x'') demo_state 0
     = Some (Returned (push (LUserdata 1) demo_state) 8)
   \<and> unpickle demo_env (''uSBodyPath'' @ [NL] @ ''3x-7y12z5w'') demo_state 0
     = Some (Returned (push (LUserdata 2) demo_state) 21)
   \<and> (\<forall>e l v key l'. pickle_val e l v [] key \<noteq> Returned l' ''f1.5x'')"
proof -
  have c1: "unpickle demo_env ''f1.5x'' demo_state 0
     = Some (Returned (push (LNumber (3 / 2)) demo_state) 5)"
    by code_simp
  have c2: "unpickle demo_env ''s2xab'' demo_state 0
     = Some (Returned (push (LString ''ab'') demo_state) 5)"
    by code_simp
  have c3: "unpickle demo_env (''uBody'' @ [NL] @ ''5x'') demo_state 0
     = Some (Returned (push (LUserdata 1) demo_state) 8)"
    by code_simp
  have c4: "unpickle demo_env (''uSBodyPath'' @ [NL] @ ''3x-7y12z5w'') demo_state 0
     = Some (Returned (push (LUserdata 2) demo_state) 21)"
    by code_simp
  have c5: "\<forall>e l v key l'. pickle_val e l v [] key \<noteq> Returned l' ''f1.5x''"
    by (intro allI) (rule pickle_never_writes_f15x)
  show ?thesis
    by (intro conjI) (rule c1, rule c2, rule c3, rule c4, rule c5)
qed

subsection \<open>The check after the outermost value\<close>

text \<open>
  C7 (top-level contract of \<open>Unserialize\<close>): when \<open>unpickle\<close> has returned the outermost
  value, \<open>Unserialize\<close> throws \<open>SavedGameCorruptException\<close> if the cursor is not exactly
  at the end of the blob or the value on top of the stack is not a table; so whenever it
  returns, the cursor was at the end and the value was a table.
\<close>

theorem Unserialize_checks_end_and_table:
  assumes "unpickle e pickled l 0 = Some (Returned l1 end)"
  shows "((end \<noteq> length pickled \<or> \<not> lua_istable l1 (-1))
            \<longrightarrow> Unserialize e l pickled = Some (Raised SavedGameCorruptException l1))
         \<and> (\<forall>l' u. Unserialize e l pickled = Some (Returned l' u)
            \<longrightarrow> end = length pickled \<and> lua_istable l1 (-1))
         \<and> (\<exists>r. Unserialize e l pickled = Some r)"
  using assms by (auto simp: Unserialize_def Let_def)

theorem Unserialize_checks_end_and_table_witness:
  "unpickle demo_env ''b1x'' demo_state 0 = Some (Returned (push (LBoolean True) demo_state) 2)
   \<and> Unserialize demo_env demo_state ''b1x''
       = Some (Raised SavedGameCorruptException (push (LBoolean True) demo_state))
   \<and> unpickle demo_env ''b1'' demo_state 0 = Some (Returned (push (LBoolean True) demo_state) 2)
   \<and> \<not> lua_istable (push (LBoolean True) demo_state) (-1)
   \<and> Unserialize demo_env demo_state ''b1''
       = Some (Raised SavedGameCorruptException (push (LBoolean True) demo_state))
   \<and> unpickle demo_env saved_blob demo_state 0
       = Some (Returned
                 (push (LTable [(LString ''ModuleA'', LTable [(LString ''x'', LBoolean False)]),
                                (LString ''ModuleB'', LTable [(LString ''y'', LBoolean True)])])
                    demo_state) 38)
   \<and> Unserialize demo_env demo_state saved_blob = Some (Returned demo_state ())
   \<and> 38 = length saved_blob
   \<and> lua_istable
         (push (LTable [(LString ''ModuleA'', LTable [(LString ''x'', LBoolean False)]),
                        (LString ''ModuleB'', LTable [(LString ''y'', LBoolean True)])])
            demo_state) (-1)"
proof -
  have a: "unpickle demo_env ''b1x'' demo_state 0
             = Some (Returned (push (LBoolean True) demo_state) 2)"
    by code_simp
  have b: "unpickle demo_env ''b1'' demo_state 0
             = Some (Returned (push (LBoolean True) demo_state) 2)"
    by code_simp
  have c: "\<not> lua_istable (push (LBoolean True) demo_state) (-1)"
    by code_simp
  have d: "unpickle demo_env saved_blob demo_state 0
       = Some (Returned
                 (push (LTable [(LString ''ModuleA'', LTable [(LString ''x'', LBoolean False)]),
                                (LString ''ModuleB'', LTable [(LString ''y'', LBoolean True)])])
                    demo_state) 38)"
    by code_simp
  have u: "Unserialize demo_env demo_state saved_blob = Some (Returned demo_state ())"
    by code_simp
  from Unserialize_checks_end_and_table [OF d] u
  have e: "38 = length saved_blob
     \<and> lua_istable
         (push (LTable [(LString ''ModuleA'', LTable [(LString ''x'', LBoolean False)]),
                        (LString ''ModuleB'', LTable [(LString ''y'', LBoolean True)])])
            demo_state) (-1)"
    by blast
  from Unserialize_checks_end_and_table [OF a] Unserialize_checks_end_and_table [OF b] a b c d u e
  show ?thesis by simp
qed

subsection \<open>The value stack\<close>

text \<open>
  C8 (the stack is balanced on every exit path, error paths included), as stated: it
  fails on the paths that raise. Decoding \<open>tx\<close> pushes the new table and then throws
  from the nested call with the table still on the stack; encoding a table that holds a
  function stops in \<open>Error\<close> with the table's copy, the key, the value and the copied
  key on the stack.
\<close>

theorem raise_leaves_values_on_stack:
  "stack demo_state = []
   \<and> unpickle demo_env ''tx'' demo_state 0
       = Some (Raised SavedGameCorruptException (demo_state\<lparr>stack := [LTable []]\<rparr>))
   \<and> pickle_val demo_env demo_state (LTable [(LString ''k'', LFunction 1)]) [] None
       = Raised (FatalError (UnsupportedValue (Some ''k'') ''function''))
           (demo_state\<lparr>stack := [LString ''k'', LFunction 1, LString ''k'',
                                   LTable [(LString ''k'', LFunction 1)]]\<rparr>)"
  by code_simp

text \<open>
  C8, amended to the paths that return: \<open>unpickle\<close> always comes to an end (the bound
  on the depth of calls is never reached); a call of \<open>unpickle\<close> that returns has pushed
  exactly one value onto the stack it was given, and a call of \<open>pickle\<close> that returns
  leaves the runtime state as it was given.
\<close>

theorem stack_balanced_on_return:
  "(\<exists>r. unpickle e buf l pos = Some r)
   \<and> (unpickle e buf l pos = Some (Returned l' pos') \<longrightarrow> (\<exists>v. l' = push v l))
   \<and> (pickle e l idx out key = Returned l'' out' \<longrightarrow> l'' = l)"
proof (intro conjI impI)
  show "\<exists>r. unpickle e buf l pos = Some r" by (rule unpickle_returns)
next
  assume "unpickle e buf l pos = Some (Returned l' pos')"
  then show "\<exists>v. l' = push v l"
    unfolding unpickle_def by (rule unpickle_n_pushes_one(1))
next
  assume a: "pickle e l idx out key = Returned l'' out'"
  show "l'' = l"
  proof (cases "lua_value l idx")
    case None
    with a show ?thesis by (simp add: pickle_def Error_def)
  next
    case (Some v)
    with a have "pickle_val e l v out key = Returned l'' out'" by (simp add: pickle_def)
    then show ?thesis by (rule pickle_keeps_state(1))
  qed
qed

theorem stack_balanced_on_return_witness:
  "unpickle demo_env (''ts1'' @ [NL] @ ''ab1n'') demo_state 0
     = Some (Returned (push (LTable [(LString ''a'', LBoolean True)]) demo_state) 8)
   \<and> pickle demo_env (push (LTable [(LString ''a'', LBoolean True)]) demo_state) (-1) [] None
     = Returned (push (LTable [(LString ''a'', LBoolean True)]) demo_state)
         (''ts1'' @ [NL] @ ''ab1n'')
   \<and> (\<exists>v. push (LTable [(LString ''a'', LBoolean True)]) demo_state = push v demo_state)"
proof -
  have a: "unpickle demo_env (''ts1'' @ [NL] @ ''ab1n'') demo_state 0
     = Some (Returned (push (LTable [(LString ''a'', LBoolean True)]) demo_state) 8)"
    by code_simp
  have b: "pickle demo_env (push (LTable [(LString ''a'', LBoolean True)]) demo_state) (-1) [] None
     = Returned (push (LTable [(LString ''a'', LBoolean True)]) demo_state)
         (''ts1'' @ [NL] @ ''ab1n'')"
    by code_simp
  have c: "\<exists>v. push (LTable [(LString ''a'', LBoolean True)]) demo_state = push v demo_state"
    by (rule stack_balanced_on_return [THEN conjunct2, THEN conjunct1, THEN mp, OF a])
  have d: "push (LTable [(LString ''a'', LBoolean True)]) demo_state
             = push (LTable [(LString ''a'', LBoolean True)]) demo_state"
    by (rule stack_balanced_on_return [THEN conjunct2, THEN conjunct2, THEN mp, OF b])
  from a b c d show ?thesis by simp
qed
subsection \<open>Failures of the encoder\<close>

text \<open>
  C9 (pickle returns on well-typed input and otherwise stops fatally, naming the key):
  for the value at the index given, \<open>pickle\<close> returns when the value is supported. When
  it is not, \<open>pickle\<close> stops in a fatal error under whatever key it runs, and when it
  runs under a key the message carries that key: \<open>NoLongerExists\<close> for a userdata whose
  id is not in the table of Lua objects, \<open>UnsupportedUserdata\<close> for one that is neither a
  location nor a body, \<open>UnsupportedValue\<close> with the type name for a function, a thread
  or a light userdata. Called without a key on a table whose keys are names, as
  \<open>Serialize\<close> calls it on the table of modules, it stops at the first entry, in the
  order of \<open>lua_next\<close>, whose value is not supported, with a message that carries the
  key of that entry.
\<close>

theorem pickle_returns_or_stops_naming_key:
  assumes v: "lua_value l idx = Some v"
  shows "(supported e v \<longrightarrow> (\<exists>out'. pickle e l idx out key = Returned l out'))
   \<and> (\<not> supported e v \<longrightarrow>
        (\<exists>m l'. pickle e l idx out key = Raised (FatalError m) l'
                \<and> (key \<noteq> None \<longrightarrow> message_key m = key)))
   \<and> (\<forall>i. v = LUserdata i \<and> Lookup e i = None \<longrightarrow>
        pickle e l idx out key = Raised (FatalError (NoLongerExists key i)) l)
   \<and> (\<forall>i c. v = LUserdata i \<and> Lookup e i = Some (IsaOther c) \<longrightarrow>
        pickle e l idx out key = Raised (FatalError (UnsupportedUserdata key)) l)
   \<and> (type_of_lval v \<in> {LUA_TLIGHTUSERDATA, LUA_TFUNCTION, LUA_TTHREAD} \<longrightarrow>
        pickle e l idx out key
          = Raised (FatalError (UnsupportedValue key (lua_typename (type_of_lval v)))) l)
   \<and> (\<forall>t. v = LTable t \<and> named_keys e t \<and> \<not> supported e v \<longrightarrow>
        (\<exists>m l' pre kk vv post.
            pickle e l idx out None = Raised (FatalError m) l'
          \<and> lua_next_order e t = pre @ (kk, vv) # post
          \<and> supported_entries e pre \<and> \<not> supported e vv
          \<and> message_key m = lua_tostring e kk))"
proof -
  have p: "pickle e l idx out key' = pickle_val e l v out key'" for key'
    using v by (simp add: pickle_def)
  have c1: "supported e v \<longrightarrow> (\<exists>out'. pickle e l idx out key = Returned l out')"
  proof
    assume "supported e v"
    from pickle_returns(1) [OF this] obtain l' out' where
      r: "pickle_val e l v out key = Returned l' out'" by blast
    from pickle_keeps_state(1) [OF r] r show "\<exists>out'. pickle e l idx out key = Returned l out'"
      by (simp add: p)
  qed
  have raised: "\<exists>err l'. pickle_val e l v out key' = Raised err l'" if "\<not> supported e v" for key'
  proof (cases "pickle_val e l v out key'")
    case (Returned l' out')
    from pickle_returned_supported(1) [OF this] that show ?thesis by simp
  next
    case (Raised err l')
    then show ?thesis by blast
  qed
  have c2: "\<not> supported e v \<longrightarrow>
        (\<exists>m l'. pickle e l idx out key = Raised (FatalError m) l'
                \<and> (key \<noteq> None \<longrightarrow> message_key m = key))"
  proof
    assume "\<not> supported e v"
    from raised [OF this] obtain err l' where
      r: "pickle_val e l v out key = Raised err l'" by blast
    from pickle_raised_fatal(1) [OF r] obtain m where m: "err = FatalError m" by blast
    have "message_key m = key" if "key \<noteq> None"
      using pickle_raised_names_key(1) [OF r that] m by auto
    with r m show "\<exists>m l'. pickle e l idx out key = Raised (FatalError m) l'
                   \<and> (key \<noteq> None \<longrightarrow> message_key m = key)"
      by (auto simp: p)
  qed
  have c3: "\<forall>i. v = LUserdata i \<and> Lookup e i = None \<longrightarrow>
        pickle e l idx out key = Raised (FatalError (NoLongerExists key i)) l"
    by (simp add: p pickle_userdata_def Error_def Let_def)
  have c4: "\<forall>i c. v = LUserdata i \<and> Lookup e i = Some (IsaOther c) \<longrightarrow>
        pickle e l idx out key = Raised (FatalError (UnsupportedUserdata key)) l"
    by (simp add: p pickle_userdata_def Error_def Let_def)
  have c5: "type_of_lval v \<in> {LUA_TLIGHTUSERDATA, LUA_TFUNCTION, LUA_TTHREAD} \<longrightarrow>
        pickle e l idx out key
          = Raised (FatalError (UnsupportedValue key (lua_typename (type_of_lval v)))) l"
    by (cases v) (simp_all add: p Error_def)
  have c6: "\<forall>t. v = LTable t \<and> named_keys e t \<and> \<not> supported e v \<longrightarrow>
        (\<exists>m l' pre kk vv post.
            pickle e l idx out None = Raised (FatalError m) l'
          \<and> lua_next_order e t = pre @ (kk, vv) # post
          \<and> supported_entries e pre \<and> \<not> supported e vv
          \<and> message_key m = lua_tostring e kk)"
  proof (intro allI impI)
    fix t
    assume h: "v = LTable t \<and> named_keys e t \<and> \<not> supported e v"
    then have vt: "v = LTable t" and ns: "\<not> supported e v" by blast+
    from h have sk: "named_keys e (lua_next_order e t)"
      by (simp add: named_keys_lua_next_order)
    from raised [OF ns] obtain err l' where
      r: "pickle_val e l v out None = Raised err l'" by blast
    with vt have
      pe: "pickle_entries e (lua_pushnil (push (LTable t) l)) (lua_next_order e t) (out @ ''t'') None
             = Raised err l'"
      by (auto simp: Let_def split: outcome.splits)
    from pickle_toplevel_names_entry [OF pe sk] obtain m pre kk vv post where
      "err = FatalError m" "lua_next_order e t = pre @ (kk, vv) # post"
      "supported_entries e pre" "\<not> supported e vv" "message_key m = lua_tostring e kk"
      by blast
    with r show "\<exists>m l' pre kk vv post.
            pickle e l idx out None = Raised (FatalError m) l'
          \<and> lua_next_order e t = pre @ (kk, vv) # post
          \<and> supported_entries e pre \<and> \<not> supported e vv
          \<and> message_key m = lua_tostring e kk"
      unfolding p by blast
  qed
  from c1 c2 c3 c4 c5 c6 show ?thesis by blast
qed

theorem pickle_returns_or_stops_naming_key_witness:
  "lua_value (push (LTable [(LString ''a'', LUserdata 1)]) demo_state) (-1)
     = Some (LTable [(LString ''a'', LUserdata 1)])
   \<and> supported demo_env (LTable [(LString ''a'', LUserdata 1)])
   \<and> (\<exists>out'. pickle demo_env (push (LTable [(LString ''a'', LUserdata 1)]) demo_state) (-1) [] None
               = Returned (push (LTable [(LString ''a'', LUserdata 1)]) demo_state) out')
   \<and> lua_value (push (LTable failing_modules) demo_state) (-1) = Some (LTable failing_modules)
   \<and> named_keys demo_env failing_modules
   \<and> \<not> supported demo_env (LTable failing_modules)
   \<and> (\<exists>m l'. pickle demo_env (push (LTable failing_modules) demo_state) (-1) [] (Some ''k'')
                 = Raised (FatalError m) l' \<and> message_key m = Some ''k'')
   \<and> (\<exists>m l' pre kk vv post.
          pickle demo_env (push (LTable failing_modules) demo_state) (-1) [] None
            = Raised (FatalError m) l'
        \<and> lua_next_order demo_env failing_modules = pre @ (kk, vv) # post
        \<and> supported_entries demo_env pre \<and> \<not> supported demo_env vv
        \<and> message_key m = lua_tostring demo_env kk)
   \<and> (\<exists>l'. pickle demo_env (push (LTable failing_modules) demo_state) (-1) [] None
              = Raised (FatalError (UnsupportedValue (Some ''ModuleB'') ''function'')) l')
   \<and> Lookup demo_env 9 = None
   \<and> pickle demo_env (push (LUserdata 9) demo_state) (-1) [] (Some ''k'')
       = Raised (FatalError (NoLongerExists (Some ''k'') 9)) (push (LUserdata 9) demo_state)
   \<and> Lookup demo_env 3 = Some (IsaOther ''StarSystem'')
   \<and> pickle demo_env (push (LUserdata 3) demo_state) (-1) [] (Some ''k'')
       = Raised (FatalError (UnsupportedUserdata (Some ''k''))) (push (LUserdata 3) demo_state)
   \<and> pickle demo_env (push (LFunction 1) demo_state) (-1) [] (Some ''k'')
       = Raised (FatalError (UnsupportedValue (Some ''k'') ''function''))
           (push (LFunction 1) demo_state)
   \<and> pickle demo_env (push (LFunction 1) demo_state) (-1) [] None
       = Raised (FatalError (UnsupportedValue None ''function'')) (push (LFunction 1) demo_state)"
proof -
  have a: "lua_value (push (LTable [(LString ''a'', LUserdata 1)]) demo_state) (-1)
     = Some (LTable [(LString ''a'', LUserdata 1)])"
    by code_simp
  have sa: "supported demo_env (LTable [(LString ''a'', LUserdata 1)])"
    by code_simp
  have b: "lua_value (push (LTable failing_modules) demo_state) (-1) = Some (LTable failing_modules)"
    by code_simp
  have sk: "named_keys demo_env failing_modules"
    by code_simp
  have nb: "\<not> supported demo_env (LTable failing_modules)"
    by code_simp
  have u9: "lua_value (push (LUserdata 9) demo_state) (-1) = Some (LUserdata 9)"
    by code_simp
  have l9: "Lookup demo_env 9 = None"
    by (simp add: demo_env_def)
  have u3: "lua_value (push (LUserdata 3) demo_state) (-1) = Some (LUserdata 3)"
    by code_simp
  have l3: "Lookup demo_env 3 = Some (IsaOther ''StarSystem'')"
    by (simp add: demo_env_def)
  have f1: "lua_value (push (LFunction 1) demo_state) (-1) = Some (LFunction 1)"
    by code_simp
  note A = pickle_returns_or_stops_naming_key [OF a, where e = demo_env and out = "[]" and key = None]
  note B = pickle_returns_or_stops_naming_key [OF b, where e = demo_env and out = "[]"
      and key = "Some ''k''"]
  note C = pickle_returns_or_stops_naming_key [OF u9, where e = demo_env and out = "[]"
      and key = "Some ''k''"]
  note D = pickle_returns_or_stops_naming_key [OF u3, where e = demo_env and out = "[]"
      and key = "Some ''k''"]
  note E = pickle_returns_or_stops_naming_key [OF f1, where e = demo_env and out = "[]"
      and key = "Some ''k''"]
  note F = pickle_returns_or_stops_naming_key [OF f1, where e = demo_env and out = "[]"
      and key = None]
  from A sa have r1: "\<exists>out'. pickle demo_env (push (LTable [(LString ''a'', LUserdata 1)]) demo_state) (-1) [] None
               = Returned (push (LTable [(LString ''a'', LUserdata 1)]) demo_state) out'"
    by blast
  from B nb have r2: "\<exists>m l'. pickle demo_env (push (LTable failing_modules) demo_state) (-1) []
                 (Some ''k'') = Raised (FatalError m) l' \<and> message_key m = Some ''k''"
    by blast
  from B nb sk have r3: "\<exists>m l' pre kk vv post.
          pickle demo_env (push (LTable failing_modules) demo_state) (-1) [] None
            = Raised (FatalError m) l'
        \<and> lua_next_order demo_env failing_modules = pre @ (kk, vv) # post
        \<and> supported_entries demo_env pre \<and> \<not> supported demo_env vv
        \<and> message_key m = lua_tostring demo_env kk"
    by blast
  have "case pickle demo_env (push (LTable failing_modules) demo_state) (-1) [] None of
          Raised err l' \<Rightarrow> err = FatalError (UnsupportedValue (Some ''ModuleB'') ''function'')
        | Returned l' out' \<Rightarrow> False"
    by code_simp
  then have r3': "\<exists>l'. pickle demo_env (push (LTable failing_modules) demo_state) (-1) [] None
              = Raised (FatalError (UnsupportedValue (Some ''ModuleB'') ''function'')) l'"
    by (cases "pickle demo_env (push (LTable failing_modules) demo_state) (-1) [] None") simp_all
  from C l9 have r4: "pickle demo_env (push (LUserdata 9) demo_state) (-1) [] (Some ''k'')
       = Raised (FatalError (NoLongerExists (Some ''k'') 9)) (push (LUserdata 9) demo_state)"
    by blast
  from D l3 have r5: "pickle demo_env (push (LUserdata 3) demo_state) (-1) [] (Some ''k'')
       = Raised (FatalError (UnsupportedUserdata (Some ''k''))) (push (LUserdata 3) demo_state)"
    by blast
  from E have r6: "pickle demo_env (push (LFunction 1) demo_state) (-1) [] (Some ''k'')
       = Raised (FatalError (UnsupportedValue (Some ''k'') ''function''))
           (push (LFunction 1) demo_state)"
    by simp
  from F have r7: "pickle demo_env (push (LFunction 1) demo_state) (-1) [] None
       = Raised (FatalError (UnsupportedValue None ''function'')) (push (LFunction 1) demo_state)"
    by simp
  show ?thesis
    by (intro conjI) (rule a, rule sa, rule r1, rule b, rule sk, rule nb, rule r2, rule r3,
        rule r3', rule l9, rule r4, rule l3, rule r5, rule r6, rule r7)
qed

subsection \<open>Object references\<close>

text \<open>
  C3 (a Body reference is written \<open>u4\nBody\nN\n\<close>, a Location reference
  \<open>u9\nSBodyPath\n3\n-7\n12\n5\n\<close>), as stated: the encoder writes no length before the
  kind name, and the decoder takes everything up to the first newline as the kind name,
  so it rejects the texts of the claim.
\<close>

theorem reference_text_has_no_length_field:
  "pickle_val demo_env demo_state (LUserdata 1) [] None
     = Returned demo_state (''uBody'' @ [NL] @ ''5'' @ [NL])
   \<and> ''uBody'' @ [NL] @ ''5'' @ [NL] \<noteq> ''u4'' @ [NL] @ ''Body'' @ [NL] @ ''5'' @ [NL]
   \<and> unpickle demo_env (''u4'' @ [NL] @ ''Body'' @ [NL] @ ''5'' @ [NL]) demo_state 0
     = Some (Raised SavedGameCorruptException demo_state)
   \<and> pickle_val demo_env demo_state (LUserdata 2) [] None
     = Returned demo_state
         (''uSBodyPath'' @ [NL] @ ''3'' @ [NL] @ ''-7'' @ [NL] @ ''12'' @ [NL] @ ''5'' @ [NL])
   \<and> unpickle demo_env
         (''u9'' @ [NL] @ ''SBodyPath'' @ [NL] @ ''3'' @ [NL] @ ''-7'' @ [NL] @ ''12'' @ [NL]
            @ ''5'' @ [NL]) demo_state 0
     = Some (Raised SavedGameCorruptException demo_state)"
  by code_simp

text \<open>
  C3, amended to the bytes the code writes: a userdata whose Lua object is a body with
  stable id \<open>N\<close> is written \<open>uBody\nN\n\<close>, and that text is read back as the reference
  that \<open>PushToLua\<close> makes for the object \<open>LookupBody N\<close>, by its type; a userdata whose
  Lua object is the location \<open>(3, -7, 12, 5)\<close> is written \<open>uSBodyPath\n3\n-7\n12\n5\n\<close>,
  and that text is read back as the reference \<open>PushToLuaGC\<close> makes for a location with
  the same four components. \<open>N\<close> is a 32-bit \<open>int\<close>.
\<close>

theorem object_reference_round_trip:
  assumes "- (2 ^ 31) \<le> N" and "N < 2 ^ 31"
  shows "(Lookup e i = Some (IsaBody b) \<and> LookupBodyIndex e b = N \<longrightarrow>
            pickle_val e l (LUserdata i) out key
              = Returned l (out @ ''uBody'' @ [NL] @ show_int N @ [NL]))
   \<and> (LookupBody e N = Some b \<longrightarrow>
         unpickle e (''uBody'' @ [NL] @ show_int N @ [NL]) l 0
           = Some (case push_body e l b of
                     Raised err l' \<Rightarrow> Raised err l'
                   | Returned l' u \<Rightarrow>
                       Returned l' (length (''uBody'' @ [NL] @ show_int N @ [NL]))))
   \<and> (LookupBody e N = Some b \<and> GetType e b = SHIP \<longrightarrow>
         unpickle e (''uBody'' @ [NL] @ show_int N @ [NL]) l 0
           = Some (Returned (push (LUserdata (PushToLua e ''Ship'' b)) l)
                     (length (''uBody'' @ [NL] @ show_int N @ [NL]))))
   \<and> (Lookup e j = Some (IsaSBodyPath \<lparr>sectorX = 3, sectorY = - 7, systemNum = 12, sbodyId = 5\<rparr>)
         \<longrightarrow> pickle_val e l (LUserdata j) out key
              = Returned l (out @ ''uSBodyPath'' @ [NL] @ ''3'' @ [NL] @ ''-7'' @ [NL]
                              @ ''12'' @ [NL] @ ''5'' @ [NL]))
   \<and> unpickle e (''uSBodyPath'' @ [NL] @ ''3'' @ [NL] @ ''-7'' @ [NL] @ ''12'' @ [NL]
                   @ ''5'' @ [NL]) l 0
       = Some (Returned
                 (push (LUserdata (PushToLuaGC e
                    \<lparr>sectorX = 3, sectorY = - 7, systemNum = 12, sbodyId = 5\<rparr>)) l) 21)"
proof -
  have sh: "show_int 3 = ''3''" "show_int (- 7) = ''-7''" "show_int 12 = ''12''"
    "show_int 5 = ''5''"
    by code_simp+
  have c1: "Lookup e i = Some (IsaBody b) \<and> LookupBodyIndex e b = N \<longrightarrow>
            pickle_val e l (LUserdata i) out key
              = Returned l (out @ ''uBody'' @ [NL] @ show_int N @ [NL])"
    using pickle_body_text [of e b i l out key] assms by auto
  have dec: "unpickle e (''uBody'' @ [NL] @ show_int N @ [NL]) l 0
           = Some (case LookupBody e N of
                     None \<Rightarrow> Raised NullPointerDereference l
                   | Some b \<Rightarrow>
                       (case push_body e l b of
                          Raised err l' \<Rightarrow> Raised err l'
                        | Returned l' u \<Rightarrow>
                            Returned l' (length (''uBody'' @ [NL] @ show_int N @ [NL]))))"
  proof -
    have "unpickle_n (2 * length (''uBody'' @ [NL] @ show_int N @ [NL]) + 2) e
            (''uBody'' @ [NL] @ show_int N @ [NL]) l (length ([] :: string))
          = Some (case LookupBody e N of
                     None \<Rightarrow> Raised NullPointerDereference l
                   | Some b \<Rightarrow>
                       (case push_body e l b of
                          Raised err l' \<Rightarrow> Raised err l'
                        | Returned l' u \<Rightarrow>
                            Returned l' (length ([] :: string) + 6 + length (show_int N) + 1)))"
      by (rule unpickle_body_text [OF assms, where post = "[]"]) simp_all
    then show ?thesis
      by (simp add: unpickle_def del: unpickle_n.simps split: option.split outcome.split)
  qed
  have c2: "LookupBody e N = Some b \<longrightarrow>
         unpickle e (''uBody'' @ [NL] @ show_int N @ [NL]) l 0
           = Some (case push_body e l b of
                     Raised err l' \<Rightarrow> Raised err l'
                   | Returned l' u \<Rightarrow>
                       Returned l' (length (''uBody'' @ [NL] @ show_int N @ [NL])))"
  proof
    assume h: "LookupBody e N = Some b"
    show "unpickle e (''uBody'' @ [NL] @ show_int N @ [NL]) l 0
           = Some (case push_body e l b of
                     Raised err l' \<Rightarrow> Raised err l'
                   | Returned l' u \<Rightarrow>
                       Returned l' (length (''uBody'' @ [NL] @ show_int N @ [NL])))"
      unfolding dec h by simp
  qed
  have c3: "LookupBody e N = Some b \<and> GetType e b = SHIP \<longrightarrow>
         unpickle e (''uBody'' @ [NL] @ show_int N @ [NL]) l 0
           = Some (Returned (push (LUserdata (PushToLua e ''Ship'' b)) l)
                     (length (''uBody'' @ [NL] @ show_int N @ [NL])))"
  proof
    assume h: "LookupBody e N = Some b \<and> GetType e b = SHIP"
    then have h1: "LookupBody e N = Some b" and h2: "GetType e b = SHIP" by blast+
    show "unpickle e (''uBody'' @ [NL] @ show_int N @ [NL]) l 0
           = Some (Returned (push (LUserdata (PushToLua e ''Ship'' b)) l)
                     (length (''uBody'' @ [NL] @ show_int N @ [NL])))"
      unfolding dec h1 by (simp add: push_body_def h2)
  qed
  have c4: "Lookup e j = Some (IsaSBodyPath \<lparr>sectorX = 3, sectorY = - 7, systemNum = 12, sbodyId = 5\<rparr>)
         \<longrightarrow> pickle_val e l (LUserdata j) out key
              = Returned l (out @ ''uSBodyPath'' @ [NL] @ ''3'' @ [NL] @ ''-7'' @ [NL]
                              @ ''12'' @ [NL] @ ''5'' @ [NL])"
    using pickle_sbodypath_text
      [of "\<lparr>sectorX = 3, sectorY = - 7, systemNum = 12, sbodyId = 5\<rparr>" e j l out key]
    by (simp add: sh)
  have c5: "unpickle e (''uSBodyPath'' @ [NL] @ ''3'' @ [NL] @ ''-7'' @ [NL] @ ''12'' @ [NL]
                   @ ''5'' @ [NL]) l 0
       = Some (Returned
                 (push (LUserdata (PushToLuaGC e
                    \<lparr>sectorX = 3, sectorY = - 7, systemNum = 12, sbodyId = 5\<rparr>)) l) 21)"
  proof -
    have "unpickle_n (2 * length (''uSBodyPath'' @ [NL] @ ''3'' @ [NL] @ ''-7'' @ [NL] @ ''12'' @ [NL]
                   @ ''5'' @ [NL]) + 2) e
            (''uSBodyPath'' @ [NL] @ ''3'' @ [NL] @ ''-7'' @ [NL] @ ''12'' @ [NL]
                   @ ''5'' @ [NL]) l (length ([] :: string))
          = Some (Returned
             (push (LUserdata (PushToLuaGC e
                \<lparr>sectorX = 3, sectorY = - 7, systemNum = 12, sbodyId = 5\<rparr>)) l)
             (length ([] :: string) + 11 + length (show_int 3) + 1 + length (show_int (- 7)) + 1
                + length (show_int 12) + 1 + length (show_int 5) + 1))"
      by (rule unpickle_sbodypath_text [where post = "[]"]) (simp_all add: sh)
    then show ?thesis
      by (simp add: unpickle_def sh del: unpickle_n.simps)
  qed
  show ?thesis
    by (intro conjI) (rule c1, rule c2, rule c3, rule c4, rule c5)
qed

theorem object_reference_round_trip_witness:
  "- (2 ^ 31) \<le> (5 :: int) \<and> (5 :: int) < 2 ^ 31
   \<and> Lookup demo_env 1 = Some (IsaBody 100) \<and> LookupBodyIndex demo_env 100 = 5
   \<and> LookupBody demo_env 5 = Some 100 \<and> GetType demo_env 100 = SHIP
   \<and> Lookup demo_env 2
       = Some (IsaSBodyPath \<lparr>sectorX = 3, sectorY = - 7, systemNum = 12, sbodyId = 5\<rparr>)
   \<and> pickle_val demo_env demo_state (LUserdata 1) [] None
       = Returned demo_state ([] @ ''uBody'' @ [NL] @ show_int 5 @ [NL])
   \<and> unpickle demo_env (''uBody'' @ [NL] @ show_int 5 @ [NL]) demo_state 0
       = Some (Returned (push (LUserdata (PushToLua demo_env ''Ship'' 100)) demo_state)
                 (length (''uBody'' @ [NL] @ show_int 5 @ [NL])))
   \<and> pickle_val demo_env demo_state (LUserdata 2) [] None
       = Returned demo_state ([] @ ''uSBodyPath'' @ [NL] @ ''3'' @ [NL] @ ''-7'' @ [NL]
                              @ ''12'' @ [NL] @ ''5'' @ [NL])"
proof -
  have r: "- (2 ^ 31) \<le> (5 :: int)" "(5 :: int) < 2 ^ 31" by simp_all
  have h: "Lookup demo_env 1 = Some (IsaBody 100)" "LookupBodyIndex demo_env 100 = 5"
    "LookupBody demo_env 5 = Some 100" "GetType demo_env 100 = SHIP"
    "Lookup demo_env 2
       = Some (IsaSBodyPath \<lparr>sectorX = 3, sectorY = - 7, systemNum = 12, sbodyId = 5\<rparr>)"
    by (simp_all add: demo_env_def demo_path_def)
  note T = object_reference_round_trip [OF r, where e = demo_env and l = demo_state
      and i = 1 and b = 100 and j = 2 and out = "[]" and key = None]
  from T h r show ?thesis by blast
qed
subsection \<open>The order of a container's entries\<close>

text \<open>
  C6 (a container whose keys were entered in the order \<open>[k1, k2, k3]\<close> is, after encoding
  and decoding, visited in the order \<open>[k1, k2, k3]\<close>), as stated for every container: it
  fails in two ways. The text form merges keys: the numbers \<open>0.0000001\<close> and
  \<open>0.0000002\<close> are both written \<open>f0.000000\<close>, so of the three entries of
  \<open>colliding_table\<close> the decoder enters the first, overwrites it with the second, and
  returns a container with the two keys \<open>0\<close> and \<open>c\<close>; whatever the order in which the
  runtime visits them, two keys are not the three keys of the original. And the order in
  which a table is visited is the runtime's, not the order of entry: in a runtime that
  keeps the keys \<open>1, 2, 3\<close> in front and in this order, as the array part of a Lua table
  does, a container whose keys were entered in the order \<open>3, 2, 1\<close> is visited, written,
  entered again and visited again in the order \<open>1, 2, 3\<close>.
\<close>

theorem round_trip_does_not_keep_entry_order:
  "pickle_val demo_env demo_state colliding_table [] None
     = Returned demo_state
         (''tf0.000000'' @ [NL] @ ''b1f0.000000'' @ [NL] @ ''b0s1'' @ [NL] @ ''cb1n'')
   \<and> unpickle demo_env
         (''tf0.000000'' @ [NL] @ ''b1f0.000000'' @ [NL] @ ''b0s1'' @ [NL] @ ''cb1n'')
         demo_state 0
     = Some (Returned
               (push (LTable [(LNumber 0, LBoolean False), (LString ''c'', LBoolean True)])
                  demo_state) 32)
   \<and> (\<forall>e. map fst (lua_next_order e [(LNumber 0, LBoolean False), (LString ''c'', LBoolean True)])
          \<noteq> [LNumber (1 / 10000000), LNumber (2 / 10000000), LString ''c''])
   \<and> map fst entered_3_2_1 = [LNumber 3, LNumber 2, LNumber 1]
   \<and> map fst (lua_next_order array_first entered_3_2_1) = [LNumber 1, LNumber 2, LNumber 3]
   \<and> pickle_val array_first demo_state (LTable entered_3_2_1) [] None
       = Returned demo_state
           (''tf1.000000'' @ [NL] @ ''s1'' @ [NL] @ ''cf2.000000'' @ [NL] @ ''s1'' @ [NL]
            @ ''bf3.000000'' @ [NL] @ ''s1'' @ [NL] @ ''an'')
   \<and> unpickle array_first
         (''tf1.000000'' @ [NL] @ ''s1'' @ [NL] @ ''cf2.000000'' @ [NL] @ ''s1'' @ [NL]
            @ ''bf3.000000'' @ [NL] @ ''s1'' @ [NL] @ ''an'') demo_state 0
       = Some (Returned
                 (push (LTable [(LNumber 1, LString ''c''), (LNumber 2, LString ''b''),
                                (LNumber 3, LString ''a'')]) demo_state) 44)
   \<and> map fst (lua_next_order array_first
         [(LNumber 1, LString ''c''), (LNumber 2, LString ''b''), (LNumber 3, LString ''a'')])
       = [LNumber 1, LNumber 2, LNumber 3]
   \<and> [LNumber 1, LNumber 2, LNumber 3] \<noteq> [LNumber 3, LNumber 2, LNumber 1]"
proof -
  have a: "pickle_val demo_env demo_state colliding_table [] None
     = Returned demo_state
         (''tf0.000000'' @ [NL] @ ''b1f0.000000'' @ [NL] @ ''b0s1'' @ [NL] @ ''cb1n'')"
    by code_simp
  have b: "unpickle demo_env
         (''tf0.000000'' @ [NL] @ ''b1f0.000000'' @ [NL] @ ''b0s1'' @ [NL] @ ''cb1n'')
         demo_state 0
     = Some (Returned
               (push (LTable [(LNumber 0, LBoolean False), (LString ''c'', LBoolean True)])
                  demo_state) 32)"
    by code_simp
  have c: "\<forall>e. map fst (lua_next_order e [(LNumber 0, LBoolean False), (LString ''c'', LBoolean True)])
          \<noteq> [LNumber (1 / 10000000), LNumber (2 / 10000000), LString ''c'']"
  proof (intro allI notI)
    fix e
    assume "map fst (lua_next_order e [(LNumber 0, LBoolean False), (LString ''c'', LBoolean True)])
          = [LNumber (1 / 10000000), LNumber (2 / 10000000), LString ''c'']"
    then have "length (map fst (lua_next_order e
                 [(LNumber 0, LBoolean False), (LString ''c'', LBoolean True)])) = 3"
      by simp
    then show False by (simp add: length_lua_next_order)
  qed
  have d: "map fst entered_3_2_1 = [LNumber 3, LNumber 2, LNumber 1]"
    by code_simp
  have f: "map fst (lua_next_order array_first entered_3_2_1) = [LNumber 1, LNumber 2, LNumber 3]"
    by code_simp
  have g: "pickle_val array_first demo_state (LTable entered_3_2_1) [] None
       = Returned demo_state
           (''tf1.000000'' @ [NL] @ ''s1'' @ [NL] @ ''cf2.000000'' @ [NL] @ ''s1'' @ [NL]
            @ ''bf3.000000'' @ [NL] @ ''s1'' @ [NL] @ ''an'')"
    by code_simp
  have h: "unpickle array_first
         (''tf1.000000'' @ [NL] @ ''s1'' @ [NL] @ ''cf2.000000'' @ [NL] @ ''s1'' @ [NL]
            @ ''bf3.000000'' @ [NL] @ ''s1'' @ [NL] @ ''an'') demo_state 0
       = Some (Returned
                 (push (LTable [(LNumber 1, LString ''c''), (LNumber 2, LString ''b''),
                                (LNumber 3, LString ''a'')]) demo_state) 44)"
    by code_simp
  have i: "map fst (lua_next_order array_first
         [(LNumber 1, LString ''c''), (LNumber 2, LString ''b''), (LNumber 3, LString ''a'')])
       = [LNumber 1, LNumber 2, LNumber 3]"
    by code_simp
  have j: "[LNumber 1, LNumber 2, LNumber 3] \<noteq> [LNumber 3, LNumber 2, LNumber 1]"
    by simp
  show ?thesis
    by (intro conjI) (rule a, rule b, rule c, rule d, rule f, rule g, rule h, rule i, rule j)
qed

text \<open>
  C6, amended to what the two functions decide. For every container that is written in
  full and read back (\<open>readable\<close>: no two of its keys are read back as the same key),
  \<open>pickle\<close> writes the entries in the order in which \<open>lua_next\<close> visits them, and
  \<open>unpickle\<close> of that text enters into a new container, in that same order, what the
  entries are read back as: the key and the value entered in the \<open>i\<close>-th place are what
  \<open>unpickle\<close> returns on the text that \<open>pickle\<close> writes for the key and the value
  visited in the \<open>i\<close>-th place. When the keys are held exactly by the text, the keys
  entered are the keys themselves. The order in which the decoded container is visited is
  then the order \<open>[k1, k2, k3]\<close> in which the keys of the original were entered whenever
  the runtime visits both containers in the order of entry, which the two functions do
  not decide.
\<close>

theorem container_round_trip_enters_in_order:
  assumes "readable e (LTable t)"
  shows "\<exists>buf t'. pickle_val e l (LTable t) [] key = Returned l buf
           \<and> unpickle e buf l' 0 = Some (Returned (push (LTable t') l') (length buf))
           \<and> length t' = length t
           \<and> (\<forall>i < length t. \<exists>kb vb.
                  pickle_val e l (fst (lua_next_order e t ! i)) [] key = Returned l kb
                \<and> unpickle e kb l' 0 = Some (Returned (push (fst (t' ! i)) l') (length kb))
                \<and> pickle_val e l (snd (lua_next_order e t ! i)) [] key = Returned l vb
                \<and> unpickle e vb l' 0 = Some (Returned (push (snd (t' ! i)) l') (length vb)))
           \<and> t' = read_back_entries e (lua_next_order e t)
           \<and> map fst t' = map (\<lambda>p. read_back e (fst p)) (lua_next_order e t)
           \<and> ((\<forall>p \<in> set t. exact (fst p)) \<longrightarrow> map fst t' = map fst (lua_next_order e t))
           \<and> ((\<forall>p \<in> set t. exact (fst p)) \<and> lua_next_order e t = t \<and> lua_next_order e t' = t'
                \<longrightarrow> map fst (lua_next_order e t') = map fst t)"
proof -
  define buf where "buf = pickled_text e (LTable t)"
  define es where "es = lua_next_order e t"
  define t' where "t' = read_back_entries e es"
  have a: "pickle_val e l (LTable t) [] key = Returned l buf"
    unfolding buf_def by (rule round_trip_readable(1) [OF assms])
  have b: "unpickle e buf l' 0 = Some (Returned (push (LTable t') l') (length buf))"
    using round_trip_readable(2) [OF assms, of l'] by (simp add: buf_def t'_def es_def)
  have len: "length t' = length t"
    by (simp add: t'_def es_def read_back_entries_map length_lua_next_order)
  from assms have re: "readable_entries e es" by (simp add: es_def)
  have each: "\<forall>i < length t. \<exists>kb vb.
                  pickle_val e l (fst (es ! i)) [] key = Returned l kb
                \<and> unpickle e kb l' 0 = Some (Returned (push (fst (t' ! i)) l') (length kb))
                \<and> pickle_val e l (snd (es ! i)) [] key = Returned l vb
                \<and> unpickle e vb l' 0 = Some (Returned (push (snd (t' ! i)) l') (length vb))"
  proof (intro allI impI)
    fix i
    assume "i < length t"
    then have i: "i < length es" by (simp add: es_def length_lua_next_order)
    then have m: "es ! i \<in> set es" by simp
    with re have rk: "readable e (fst (es ! i))" and rv: "readable e (snd (es ! i))"
      by (simp_all add: readable_entries_iff)
    from i have ti: "t' ! i = (read_back e (fst (es ! i)), read_back e (snd (es ! i)))"
      by (simp add: t'_def read_back_entries_map)
    from round_trip_readable(1) [OF rk, of l key] round_trip_readable(2) [OF rk, of l']
      round_trip_readable(1) [OF rv, of l key] round_trip_readable(2) [OF rv, of l'] ti
    show "\<exists>kb vb.
                  pickle_val e l (fst (es ! i)) [] key = Returned l kb
                \<and> unpickle e kb l' 0 = Some (Returned (push (fst (t' ! i)) l') (length kb))
                \<and> pickle_val e l (snd (es ! i)) [] key = Returned l vb
                \<and> unpickle e vb l' 0 = Some (Returned (push (snd (t' ! i)) l') (length vb))"
      by auto
  qed
  have c: "map fst t' = map (\<lambda>p. read_back e (fst p)) es"
    by (simp add: t'_def map_fst_read_back_entries)
  have d: "map fst t' = map fst es" if "\<forall>p \<in> set t. exact (fst p)"
  proof -
    from that have "read_back e (fst p) = fst p" if "p \<in> set es" for p
      using that by (simp add: es_def set_lua_next_order exact_read_back)
    then show ?thesis unfolding c by (simp cong: map_cong)
  qed
  have f: "(\<forall>p \<in> set t. exact (fst p)) \<and> es = t \<and> lua_next_order e t' = t'
             \<longrightarrow> map fst (lua_next_order e t') = map fst t"
    using d by auto
  have d': "(\<forall>p \<in> set t. exact (fst p)) \<longrightarrow> map fst t' = map fst es"
    using d by blast
  show ?thesis
    unfolding es_def [symmetric]
    by (intro exI [of _ buf] exI [of _ t'] conjI) (rule a, rule b, rule len, rule each,
        rule t'_def, rule c, rule d', rule f)
qed

theorem container_round_trip_enters_in_order_witness:
  "readable demo_env (LTable mixed_table)
   \<and> readable demo_env (LTable [(LString ''k1'', LNumber (3 / 2)), (LNumber 2, LBoolean True),
                                 (LString ''k3'', LTable [])])
   \<and> exact (LString ''k1'') \<and> exact (LNumber 2) \<and> exact (LString ''k3'')
   \<and> (\<exists>buf t'. pickle_val demo_env demo_state (LTable mixed_table) [] None = Returned demo_state buf
         \<and> unpickle demo_env buf demo_state 0
             = Some (Returned (push (LTable t') demo_state) (length buf))
         \<and> t' = [(LString ''pos'', LUserdata 2),
                  (LNumber (5 / 2), LNumber (333333 / 1000000)),
                  (LBoolean True, LString ''a''),
                  (LTable [(LString ''x'', LBoolean False)], LUserdata 1),
                  (LString ''ship'',
                   LTable [(LNumber 1, LString ''one''), (LNumber 2, LString ''two'')])])
   \<and> (\<exists>buf t'. pickle_val demo_env demo_state
          (LTable [(LString ''k1'', LNumber (3 / 2)), (LNumber 2, LBoolean True),
                   (LString ''k3'', LTable [])]) [] None = Returned demo_state buf
         \<and> unpickle demo_env buf demo_state 0
             = Some (Returned (push (LTable t') demo_state) (length buf))
         \<and> lua_next_order demo_env t' = t'
         \<and> map fst (lua_next_order demo_env t') = [LString ''k1'', LNumber 2, LString ''k3''])"
proof -
  define t1 where "t1 = [(LString ''k1'', LNumber (3 / 2)), (LNumber 2, LBoolean True),
                         (LString ''k3'', LTable [])]"
  have o: "lua_next_order demo_env t = t" for t
    by (simp add: lua_next_order_def demo_env_def sort_key_const)
  have p: "readable demo_env (LTable mixed_table)"
    by code_simp
  have q: "readable demo_env (LTable t1)"
    unfolding t1_def by code_simp
  have x: "\<forall>p \<in> set t1. exact (fst p)"
    unfolding t1_def by code_simp
  have rb: "read_back_entries demo_env (lua_next_order demo_env mixed_table)
              = [(LString ''pos'', LUserdata 2),
                  (LNumber (5 / 2), LNumber (333333 / 1000000)),
                  (LBoolean True, LString ''a''),
                  (LTable [(LString ''x'', LBoolean False)], LUserdata 1),
                  (LString ''ship'',
                   LTable [(LNumber 1, LString ''one''), (LNumber 2, LString ''two'')])]"
    by code_simp
  from container_round_trip_enters_in_order [OF p, of demo_state None demo_state]
  obtain buf t' where
    a: "pickle_val demo_env demo_state (LTable mixed_table) [] None = Returned demo_state buf"
    and b: "unpickle demo_env buf demo_state 0
             = Some (Returned (push (LTable t') demo_state) (length buf))"
    and c: "t' = read_back_entries demo_env (lua_next_order demo_env mixed_table)"
    by blast
  from c rb have c': "t' = [(LString ''pos'', LUserdata 2),
                  (LNumber (5 / 2), LNumber (333333 / 1000000)),
                  (LBoolean True, LString ''a''),
                  (LTable [(LString ''x'', LBoolean False)], LUserdata 1),
                  (LString ''ship'',
                   LTable [(LNumber 1, LString ''one''), (LNumber 2, LString ''two'')])]"
    by simp
  from container_round_trip_enters_in_order [OF q, of demo_state None demo_state]
  obtain buf1 t1' where
    a1: "pickle_val demo_env demo_state (LTable t1) [] None = Returned demo_state buf1"
    and b1: "unpickle demo_env buf1 demo_state 0
             = Some (Returned (push (LTable t1') demo_state) (length buf1))"
    and d1: "(\<forall>p \<in> set t1. exact (fst p)) \<and> lua_next_order demo_env t1 = t1
               \<and> lua_next_order demo_env t1' = t1'
             \<longrightarrow> map fst (lua_next_order demo_env t1') = map fst t1"
    by blast
  have o1: "lua_next_order demo_env t1' = t1'" by (rule o)
  from d1 x o o1 have e1: "map fst (lua_next_order demo_env t1') = map fst t1" by blast
  then have e1': "map fst (lua_next_order demo_env t1') = [LString ''k1'', LNumber 2, LString ''k3'']"
    by (simp add: t1_def)
  have r1: "\<exists>buf t'. pickle_val demo_env demo_state (LTable mixed_table) [] None = Returned demo_state buf
         \<and> unpickle demo_env buf demo_state 0
             = Some (Returned (push (LTable t') demo_state) (length buf))
         \<and> t' = [(LString ''pos'', LUserdata 2),
                  (LNumber (5 / 2), LNumber (333333 / 1000000)),
                  (LBoolean True, LString ''a''),
                  (LTable [(LString ''x'', LBoolean False)], LUserdata 1),
                  (LString ''ship'',
                   LTable [(LNumber 1, LString ''one''), (LNumber 2, LString ''two'')])]"
    by (intro exI [of _ buf] exI [of _ t'] conjI) (rule a, rule b, rule c')
  have r2: "\<exists>buf t'. pickle_val demo_env demo_state (LTable t1) [] None = Returned demo_state buf
         \<and> unpickle demo_env buf demo_state 0
             = Some (Returned (push (LTable t') demo_state) (length buf))
         \<and> lua_next_order demo_env t' = t'
         \<and> map fst (lua_next_order demo_env t') = [LString ''k1'', LNumber 2, LString ''k3'']"
    by (intro exI [of _ buf1] exI [of _ t1'] conjI) (rule a1, rule b1, rule o1, rule e1')
  have x': "exact (LString ''k1'')" "exact (LNumber 2)" "exact (LString ''k3'')"
    using x by (simp_all add: t1_def)
  show ?thesis
    using p q x' r1 r2 unfolding t1_def by (intro conjI)
qed

end
